theory Spec2Isabelle
  imports Complex_Main "HOL-Library.Product_Lexorder"
begin

section \<open>Data model of \<open>src/js/designer.js\<close>\<close>

text \<open>
  The development embeds the layout and history code of the designer: the placement routine
  \<open>arrangeObjectOnCanvas\<close> with its nested helpers \<open>clampRect\<close>, \<open>subtractRect\<close> and
  \<open>pruneContainedRects\<close>, the reflow routine, the fill-sheet loop and the undo/redo stacks.

  JavaScript numbers are modelled as \<^typ>\<open>real\<close>: the arithmetic is exact, rounding of IEEE
  doubles is not part of the model. Statements that turn on exact equality of computed
  lengths are therefore made for whole-number lengths only, where the sums, differences and
  halves the code computes are exact in doubles too. JavaScript objects are references into an explicit store
  (\<open>heap\<close>), so that mutation through one reference is visible through every alias.

  Fabric.js is a library the repository uses, not a part of it. Its objects and canvas
  operations (\<open>getBoundingRect\<close>, \<open>set\<close>, \<open>clone\<close>, \<open>add\<close>, \<open>remove\<close>,
  \<open>bringObjectToFront\<close>, \<open>loadFromJSON\<close>) are modelled as far as the code here relies on
  them. Rendering, the selection, the DOM, alerts and logging are left out: they do not feed
  back into the layout or the history. A promise is followed to the point where it has settled;
  events that could interleave while it is pending are not modelled.
\<close>

type_synonym ref = nat

datatype originX = XLeft | XCenter | XRight

datatype originY = YTop | YCenter | YBottom

text \<open>
  Modelled from the spec: the Fabric object behind an item is not part of the repository.
  An item has a name, a position \<open>left\<close>/\<open>top\<close> read relative to its origin, a scaled
  footprint (\<open>getScaledWidth()\<close>, \<open>getScaledHeight()\<close>, which do not follow the rotation)
  and an \<open>angle\<close> of rotation in degrees.
\<close>

record fobject =
  name :: string
  obj_left :: real
  obj_top :: real
  originX :: originX
  originY :: originY
  scaledWidth :: real
  scaledHeight :: real
  angle :: real

text \<open>The rectangles \<open>{left, top, right, bottom}\<close> of the placement code.\<close>

record rect =
  rect_left :: real
  rect_top :: real
  rect_right :: real
  rect_bottom :: real

text \<open>The result \<open>{left, top, width, height}\<close> of \<open>getBoundingRect()\<close>.\<close>

record bounds =
  bounds_left :: real
  bounds_top :: real
  bounds_width :: real
  bounds_height :: real

record canvas =
  objects :: "ref list"
  width :: real
  height :: real
  zoom :: real

text \<open>
  The module-level variables: \<open>canvas\<close> (\<open>None\<close> before \<open>initCanvas\<close>), the store of all
  objects, the two history stacks (top of stack is the last element, as \<open>push\<close>/\<open>pop\<close> have
  it), the \<open>isRestoring\<close> flag and whether the debounce timer \<open>saveStateTimeout\<close> is armed.
\<close>

record app =
  canvas :: "canvas option"
  heap :: "ref \<Rightarrow> fobject"
  undoStack :: "string list"
  redoStack :: "string list"
  isRestoring :: bool
  saveStateTimeout :: bool

datatype error = TypeError

section \<open>Constants\<close>

definition BLEED_MM :: real where
  "BLEED_MM = 5"

definition MM_TO_PIXELS :: real where
  "MM_TO_PIXELS = 300 / 25.4"

text \<open>\<open>Math.round(x)\<close> is \<open>floor (x + 1/2)\<close>.\<close>

definition Math_round :: "real \<Rightarrow> real" where
  "Math_round x = of_int \<lfloor>x + 1 / 2\<rfloor>"

definition BLEED_PIXELS :: real where
  "BLEED_PIXELS = Math_round (BLEED_MM * MM_TO_PIXELS)"

definition PLACEMENT_PADDING :: real where
  "PLACEMENT_PADDING = 20"

definition PLACEMENT_GUTTER :: real where
  "PLACEMENT_GUTTER = 12"

definition MAX_HISTORY :: nat where
  "MAX_HISTORY = 20"

section \<open>Geometry helpers\<close>

definition isBleedObject :: "fobject \<Rightarrow> bool" where
  "isBleedObject obj \<longleftrightarrow> name obj = ''bleedOverlay'' \<or> name obj = ''bleedArea''"

definition getUserObjects :: "canvas \<Rightarrow> (ref \<Rightarrow> fobject) \<Rightarrow> ref list" where
  "getUserObjects c h = filter (\<lambda>r. \<not> isBleedObject (h r)) (objects c)"

text \<open>\<open>fabric.util.degreesToRadians\<close>.\<close>

definition degreesToRadians :: "real \<Rightarrow> real" where
  "degreesToRadians a = a * pi / 180"

text \<open>
  Modelled from the spec: the geometry of an item belongs to Fabric. The position is the
  origin point of the item; from it the centre lies half a footprint away (or not at all, for
  the origin \<open>center\<close>), in the direction the rotation gives.
\<close>

definition originOffsetX :: "fobject \<Rightarrow> real" where
  "originOffsetX obj =
     (case originX obj of
        XLeft \<Rightarrow> scaledWidth obj / 2
      | XCenter \<Rightarrow> 0
      | XRight \<Rightarrow> - (scaledWidth obj / 2))"

definition originOffsetY :: "fobject \<Rightarrow> real" where
  "originOffsetY obj =
     (case originY obj of
        YTop \<Rightarrow> scaledHeight obj / 2
      | YCenter \<Rightarrow> 0
      | YBottom \<Rightarrow> - (scaledHeight obj / 2))"

definition getCenterPoint :: "fobject \<Rightarrow> real \<times> real" where
  "getCenterPoint obj =
     (obj_left obj
        + originOffsetX obj * cos (degreesToRadians (angle obj))
        - originOffsetY obj * sin (degreesToRadians (angle obj)),
      obj_top obj
        + originOffsetX obj * sin (degreesToRadians (angle obj))
        + originOffsetY obj * cos (degreesToRadians (angle obj)))"

text \<open>
  Modelled from the spec: \<open>getBoundingRect()\<close> belongs to Fabric. It is the axis-aligned box
  round the footprint of the item turned by \<open>angle\<close> about its centre: the box follows the
  rotation, unlike \<open>getScaledWidth()\<close> and \<open>getScaledHeight()\<close>.
\<close>

definition boxWidth :: "fobject \<Rightarrow> real" where
  "boxWidth obj =
     \<bar>scaledWidth obj * cos (degreesToRadians (angle obj))\<bar>
     + \<bar>scaledHeight obj * sin (degreesToRadians (angle obj))\<bar>"

definition boxHeight :: "fobject \<Rightarrow> real" where
  "boxHeight obj =
     \<bar>scaledWidth obj * sin (degreesToRadians (angle obj))\<bar>
     + \<bar>scaledHeight obj * cos (degreesToRadians (angle obj))\<bar>"

definition getBoundingRect :: "fobject \<Rightarrow> bounds" where
  "getBoundingRect obj =
     \<lparr> bounds_left = fst (getCenterPoint obj) - boxWidth obj / 2,
       bounds_top = snd (getCenterPoint obj) - boxHeight obj / 2,
       bounds_width = boxWidth obj,
       bounds_height = boxHeight obj \<rparr>"

text \<open>\<open>canvas.getZoom() || 1\<close>: a zoom of \<open>0\<close> is falsy and replaced by \<open>1\<close>.\<close>

definition zoomOf :: "canvas \<Rightarrow> real" where
  "zoomOf c = (if zoom c = 0 then 1 else zoom c)"

definition virtualWidth :: "canvas \<Rightarrow> real" where
  "virtualWidth c = width c / zoomOf c"

definition virtualHeight :: "canvas \<Rightarrow> real" where
  "virtualHeight c = height c / zoomOf c"

definition safeRectOf :: "canvas \<Rightarrow> rect" where
  "safeRectOf c =
     \<lparr> rect_left = BLEED_PIXELS + PLACEMENT_PADDING,
       rect_top = BLEED_PIXELS + PLACEMENT_PADDING,
       rect_right = virtualWidth c - BLEED_PIXELS - PLACEMENT_PADDING,
       rect_bottom = virtualHeight c - BLEED_PIXELS - PLACEMENT_PADDING \<rparr>"

text \<open>The guard \<open>safeRect.right <= safeRect.left || safeRect.bottom <= safeRect.top\<close>.\<close>

definition safeInvalid :: "rect \<Rightarrow> bool" where
  "safeInvalid s \<longleftrightarrow> rect_right s \<le> rect_left s \<or> rect_bottom s \<le> rect_top s"

definition clampRect :: "rect \<Rightarrow> rect \<Rightarrow> rect option" where
  "clampRect r bnds =
     (let clampedRect =
        \<lparr> rect_left = max (rect_left r) (rect_left bnds),
          rect_top = max (rect_top r) (rect_top bnds),
          rect_right = min (rect_right r) (rect_right bnds),
          rect_bottom = min (rect_bottom r) (rect_bottom bnds) \<rparr>
      in if rect_left clampedRect \<ge> rect_right clampedRect
            \<or> rect_top clampedRect \<ge> rect_bottom clampedRect
         then None else Some clampedRect)"

text \<open>The intersection computed at the head of \<open>subtractRect\<close>.\<close>

definition intersection :: "rect \<Rightarrow> rect \<Rightarrow> rect" where
  "intersection freeRect blockerRect =
     \<lparr> rect_left = max (rect_left freeRect) (rect_left blockerRect),
       rect_top = max (rect_top freeRect) (rect_top blockerRect),
       rect_right = min (rect_right freeRect) (rect_right blockerRect),
       rect_bottom = min (rect_bottom freeRect) (rect_bottom blockerRect) \<rparr>"

text \<open>
  The list \<open>result\<close> of \<open>subtractRect\<close> as it stands before the final \<open>filter\<close>: the
  remainders above, below, left and right of the blocker, pushed in that order.
\<close>

definition remainders :: "rect \<Rightarrow> rect \<Rightarrow> rect list" where
  "remainders freeRect blockerRect =
     (let i = intersection freeRect blockerRect;
          middleTop = max (rect_top freeRect) (rect_top i);
          middleBottom = min (rect_bottom freeRect) (rect_bottom i)
      in (if rect_top freeRect < rect_top i
          then [\<lparr> rect_left = rect_left freeRect, rect_top = rect_top freeRect,
                   rect_right = rect_right freeRect, rect_bottom = rect_top i \<rparr>]
          else [])
       @ (if rect_bottom i < rect_bottom freeRect
          then [\<lparr> rect_left = rect_left freeRect, rect_top = rect_bottom i,
                   rect_right = rect_right freeRect, rect_bottom = rect_bottom freeRect \<rparr>]
          else [])
       @ (if middleBottom > middleTop
          then (if rect_left freeRect < rect_left i
                then [\<lparr> rect_left = rect_left freeRect, rect_top = middleTop,
                         rect_right = rect_left i, rect_bottom = middleBottom \<rparr>]
                else [])
             @ (if rect_right i < rect_right freeRect
                then [\<lparr> rect_left = rect_right i, rect_top = middleTop,
                         rect_right = rect_right freeRect, rect_bottom = middleBottom \<rparr>]
                else [])
          else []))"

text \<open>The predicate of the final \<open>filter\<close>: a remainder is kept when it is no sliver.\<close>

definition notSliver :: "rect \<Rightarrow> bool" where
  "notSliver r \<longleftrightarrow> rect_right r - rect_left r > 1 \<and> rect_bottom r - rect_top r > 1"

definition subtractRect :: "rect \<Rightarrow> rect \<Rightarrow> rect list" where
  "subtractRect freeRect blockerRect =
     (let i = intersection freeRect blockerRect
      in if rect_left i \<ge> rect_right i \<or> rect_top i \<ge> rect_bottom i
         then [freeRect]
         else filter notSliver (remainders freeRect blockerRect))"

text \<open>The test inside \<open>pruneContainedRects\<close>: \<open>other\<close> contains \<open>rect\<close> (non-strictly).\<close>

definition containsRect :: "rect \<Rightarrow> rect \<Rightarrow> bool" where
  "containsRect other r \<longleftrightarrow>
     rect_left other \<le> rect_left r \<and> rect_top other \<le> rect_top r \<and>
     rect_right other \<ge> rect_right r \<and> rect_bottom other \<ge> rect_bottom r"

text \<open>
  \<open>rects.filter((rect, index) => !rects.some((other, otherIdx) => ...))\<close>: the indices are
  made explicit with \<^const>\<open>enumerate\<close>.
\<close>

definition pruneContainedRects :: "rect list \<Rightarrow> rect list" where
  "pruneContainedRects rects =
     map snd
       (filter
          (\<lambda>(index, r). \<not> list_ex (\<lambda>(otherIdx, other).
               if index = otherIdx then False else containsRect other r)
             (enumerate 0 rects))
          (enumerate 0 rects))"

section \<open>The placement routine\<close>

text \<open>The \<open>blocker\<close> literal: the bounding box of an object grown by the gutter.\<close>

definition blockerOf :: "bounds \<Rightarrow> rect" where
  "blockerOf b =
     \<lparr> rect_left = bounds_left b - PLACEMENT_GUTTER,
       rect_top = bounds_top b - PLACEMENT_GUTTER,
       rect_right = bounds_left b + bounds_width b + PLACEMENT_GUTTER,
       rect_bottom = bounds_top b + bounds_height b + PLACEMENT_GUTTER \<rparr>"

text \<open>The body of \<open>blockers.forEach\<close>: one blocker is cut out of every free rectangle.\<close>

definition subtractBlocker :: "rect \<Rightarrow> rect list \<Rightarrow> bounds \<Rightarrow> rect list" where
  "subtractBlocker safeRect freeRects b =
     (case clampRect (blockerOf b) safeRect of
        None \<Rightarrow> freeRects
      | Some clampedBlocker \<Rightarrow> concat (map (\<lambda>r. subtractRect r clampedBlocker) freeRects))"

text \<open>
  The free-space computation of \<open>arrangeObjectOnCanvas\<close>: start from the safe area, cut out
  every blocker, prune.
\<close>

definition computeFreeSpace :: "rect \<Rightarrow> bounds list \<Rightarrow> rect list" where
  "computeFreeSpace safeRect bs =
     pruneContainedRects (foldl (subtractBlocker safeRect) [safeRect] bs)"

text \<open>
  \<open>freeRects.sort((a, b) => (a.top - b.top) || (a.left - b.left))\<close>: a stable sort on the
  key \<open>(top, left)\<close>, ordered lexicographically.
\<close>

definition sortRects :: "rect list \<Rightarrow> rect list" where
  "sortRects rs = sort_key (\<lambda>r. (rect_top r, rect_left r)) rs"

text \<open>The predicate of \<open>freeRects.find\<close>.\<close>

definition fits :: "real \<Rightarrow> real \<Rightarrow> rect \<Rightarrow> bool" where
  "fits targetWidth targetHeight r \<longleftrightarrow>
     rect_right r - rect_left r \<ge> targetWidth \<and> rect_bottom r - rect_top r \<ge> targetHeight"

text \<open>\<open>obj.set({ left: x, top: y, originX: 'center', originY: 'center' })\<close>.\<close>

definition setCentre :: "fobject \<Rightarrow> real \<Rightarrow> real \<Rightarrow> fobject" where
  "setCentre obj x y =
     obj\<lparr> obj_left := x, obj_top := y, originX := XCenter, originY := YCenter \<rparr>"

definition blockersOf :: "canvas \<Rightarrow> (ref \<Rightarrow> fobject) \<Rightarrow> ref \<Rightarrow> ref list" where
  "blockersOf c h objToArrange = filter (\<lambda>obj. obj \<noteq> objToArrange) (getUserObjects c h)"

definition arrangeObjectOnCanvas :: "app \<Rightarrow> ref option \<Rightarrow> app \<times> bool" where
  "arrangeObjectOnCanvas st objToArrange =
     (case canvas st of
        None \<Rightarrow> (st, False)
      | Some c \<Rightarrow>
          (case objToArrange of
             None \<Rightarrow> (st, False)
           | Some obj \<Rightarrow>
               (let safeRect = safeRectOf c in
                if safeInvalid safeRect
                then (st\<lparr> heap := (heap st)
                        (obj := setCentre (heap st obj) (virtualWidth c / 2) (virtualHeight c / 2)) \<rparr>,
                      False)
                else
                  (let targetWidth = scaledWidth (heap st obj);
                       targetHeight = scaledHeight (heap st obj);
                       blockers = blockersOf c (heap st) obj;
                       freeRects = sortRects (computeFreeSpace safeRect
                                     (map (\<lambda>b. getBoundingRect (heap st b)) blockers))
                   in case find (fits targetWidth targetHeight) freeRects of
                        Some placementRect \<Rightarrow>
                          (st\<lparr> heap := (heap st)
                             (obj := setCentre (heap st obj)
                                (rect_left placementRect + targetWidth / 2)
                                (rect_top placementRect + targetHeight / 2)) \<rparr>,
                           True)
                      | None \<Rightarrow>
                          (st\<lparr> heap := (heap st)
                             (obj := setCentre (heap st obj)
                                ((rect_left safeRect + rect_right safeRect) / 2)
                                ((rect_top safeRect + rect_bottom safeRect) / 2)) \<rparr>,
                           False)))))"

section \<open>Canvas mutation and its event handlers\<close>

text \<open>
  \<open>saveState\<close>: the debounced capture. Arming the timer (again) is all it does; the capture
  itself runs when the timer fires.
\<close>

definition saveState :: "app \<Rightarrow> app" where
  "saveState st =
     (if isRestoring st \<or> canvas st = None then st else st\<lparr> saveStateTimeout := True \<rparr>)"

text \<open>\<open>canvas.bringObjectToFront(obj)\<close> moves the object to the end of the object list.\<close>

definition bringObjectToFront :: "ref list \<Rightarrow> ref \<Rightarrow> ref list" where
  "bringObjectToFront objs obj = (if obj \<in> set objs then remove1 obj objs @ [obj] else objs)"

definition bringBleedObjectsToFront :: "app \<Rightarrow> app" where
  "bringBleedObjectsToFront st =
     (if isRestoring st then st
      else st\<lparr> canvas := map_option
             (\<lambda>c. c\<lparr> objects :=
                foldl bringObjectToFront (objects c)
                  (filter (\<lambda>obj. isBleedObject (heap st obj)) (objects c)) \<rparr>)
             (canvas st) \<rparr>)"

text \<open>
  \<open>canvas.add(obj)\<close> appends the object and fires \<open>object:added\<close>, on which
  \<open>bringBleedObjectsToFront\<close> and \<open>saveState\<close> are registered, in this order.
\<close>

definition canvas_add :: "app \<Rightarrow> ref \<Rightarrow> app" where
  "canvas_add st obj =
     saveState (bringBleedObjectsToFront
       (st\<lparr> canvas := map_option (\<lambda>c. c\<lparr> objects := objects c @ [obj] \<rparr>) (canvas st) \<rparr>))"

text \<open>
  \<open>canvas.remove(obj)\<close> takes the object out of the list and, when it was there, fires
  \<open>object:removed\<close>, on which \<open>saveState\<close> is registered.
\<close>

definition canvas_remove :: "app \<Rightarrow> ref \<Rightarrow> app" where
  "canvas_remove st obj =
     (case canvas st of
        None \<Rightarrow> st
      | Some c \<Rightarrow>
          if obj \<in> set (objects c)
          then saveState (st\<lparr> canvas := Some (c\<lparr> objects := remove1 obj (objects c) \<rparr>) \<rparr>)
          else st)"

section \<open>Reflow\<close>

text \<open>The predicate of the \<open>filter\<close> that collects \<open>outOfBoundsObjects\<close>.\<close>

definition outOfBounds :: "rect \<Rightarrow> bounds \<Rightarrow> bool" where
  "outOfBounds safeRect b \<longleftrightarrow>
     bounds_left b < rect_left safeRect \<or>
     bounds_top b < rect_top safeRect \<or>
     bounds_left b + bounds_width b > rect_right safeRect \<or>
     bounds_top b + bounds_height b > rect_bottom safeRect"

text \<open>The body of the second \<open>forEach\<close>: add the object again and place it.\<close>

definition reflowStep :: "app \<times> ref list \<Rightarrow> ref \<Rightarrow> app \<times> ref list" where
  "reflowStep acc obj =
     (case acc of (st, failedRepositions) \<Rightarrow>
        (case arrangeObjectOnCanvas (canvas_add st obj) (Some obj) of
           (st', placed) \<Rightarrow>
             if \<not> placed then (st', failedRepositions @ [obj]) else (st', failedRepositions)))"

text \<open>
  \<open>reflowObjectsIntoSafeArea\<close>. The function returns nothing; the model returns the new
  state together with the number it logs as reflowed (\<open>outOfBoundsObjects.length\<close>, and
  \<open>0\<close> on the early returns, where nothing is moved).
\<close>

definition reflowObjectsIntoSafeArea :: "app \<Rightarrow> app \<times> nat" where
  "reflowObjectsIntoSafeArea st =
     (case canvas st of
        None \<Rightarrow> (st, 0)
      | Some c \<Rightarrow>
          (let safeRect = safeRectOf c in
           if safeInvalid safeRect then (st, 0)
           else
             (let outOfBoundsObjects =
                    filter (\<lambda>obj. outOfBounds safeRect (getBoundingRect (heap st obj)))
                      (getUserObjects c (heap st))
              in if length outOfBoundsObjects = 0 then (st, 0)
                 else
                   (let previousRestoringState = isRestoring st;
                        st1 = st\<lparr> isRestoring := True \<rparr>;
                        st2 = foldl canvas_remove st1 outOfBoundsObjects;
                        st3 = fst (foldl reflowStep (st2, []) outOfBoundsObjects);
                        st4 = bringBleedObjectsToFront st3;
                        st5 = st4\<lparr> isRestoring := previousRestoringState \<rparr>;
                        st6 = (if \<not> previousRestoringState then saveState st5 else st5)
                    in (st6, length outOfBoundsObjects)))))"

section \<open>Fill sheet\<close>

text \<open>
  A new object gets a reference that no object on the canvas has. (References of objects that
  were taken off the canvas and dropped may be used again.)
\<close>

definition newRef :: "ref list \<Rightarrow> ref" where
  "newRef objs = Suc (fold max objs 0)"

text \<open>
  Modelled from the spec: \<open>clone()\<close> belongs to Fabric. The clone is a new object with the
  properties of its base; \<open>cloneObject h base clone\<close> is the store with the clone in it.
\<close>

definition cloneObject :: "(ref \<Rightarrow> fobject) \<Rightarrow> ref \<Rightarrow> ref \<Rightarrow> (ref \<Rightarrow> fobject)" where
  "cloneObject h base clone = h(clone := h base)"

text \<open>The body of \<open>originals.forEach\<close>: add the original again, place it, sort it into
  \<open>placedOriginals\<close> or \<open>failedOriginals\<close>.\<close>

definition arrangeOriginal :: "app \<times> ref list \<times> ref list \<Rightarrow> ref \<Rightarrow> app \<times> ref list \<times> ref list" where
  "arrangeOriginal acc obj =
     (case acc of (st, placedOriginals, failedOriginals) \<Rightarrow>
        (case arrangeObjectOnCanvas (canvas_add st obj) (Some obj) of
           (st', placed) \<Rightarrow>
             if placed then (st', placedOriginals @ [obj], failedOriginals)
             else (st', placedOriginals, failedOriginals @ [obj])))"

text \<open>
  The body of \<open>for (const base of placedOriginals)\<close>. The accumulator holds the state, the
  number of \<open>clone()\<close> calls made so far and \<open>clonesPlacedInPass\<close>. Whether a call of
  \<open>base.clone()\<close> rejects is not decided by the repository: \<open>rejects k\<close> says so for the
  \<open>k\<close>-th call. A rejection is caught and logged, and the loop goes on with the next base.
\<close>

definition cloneStep :: "(nat \<Rightarrow> bool) \<Rightarrow> app \<times> nat \<times> nat \<Rightarrow> ref \<Rightarrow> app \<times> nat \<times> nat" where
  "cloneStep rejects acc base =
     (case acc of (st, k, clonesPlacedInPass) \<Rightarrow>
        if rejects k then (st, Suc k, clonesPlacedInPass)
        else
          (case canvas st of
             None \<Rightarrow> (st, Suc k, clonesPlacedInPass)
           | Some c \<Rightarrow>
               (let clone = newRef (objects c);
                    st1 = st\<lparr> heap := cloneObject (heap st) base clone \<rparr>
                in case arrangeObjectOnCanvas (canvas_add st1 clone) (Some clone) of
                     (st2, placed) \<Rightarrow>
                       if placed then (st2, Suc k, Suc clonesPlacedInPass)
                       else (canvas_remove st2 clone, Suc k, clonesPlacedInPass))))"

text \<open>One pass of the \<open>do\<close> body: the counter is reset, every placed original is tried once.\<close>

definition clonePass :: "(nat \<Rightarrow> bool) \<Rightarrow> ref list \<Rightarrow> app \<times> nat \<Rightarrow> app \<times> nat \<times> nat" where
  "clonePass rejects placedOriginals sk =
     foldl (cloneStep rejects) (fst sk, snd sk, 0) placedOriginals"

text \<open>
  \<open>do { ... } while (clonesPlacedInPass > 0)\<close>. The loop has no bound of its own, so it is a
  partial function: \<open>None\<close> stands for a loop that never ends.
\<close>

partial_function (option) cloneLoop ::
    "(nat \<Rightarrow> bool) \<Rightarrow> ref list \<Rightarrow> app \<times> nat \<Rightarrow> (app \<times> nat) option" where
  "cloneLoop rejects placedOriginals sk =
     (let res = clonePass rejects placedOriginals sk in
      if snd (snd res) > 0
      then cloneLoop rejects placedOriginals (fst res, fst (snd res))
      else Some (fst res, fst (snd res)))"

text \<open>The state after \<open>n\<close> passes, and the number of clones the pass after them places.\<close>

primrec passState :: "(nat \<Rightarrow> bool) \<Rightarrow> ref list \<Rightarrow> nat \<Rightarrow> app \<times> nat \<Rightarrow> app \<times> nat" where
  "passState rejects placedOriginals 0 sk = sk"
| "passState rejects placedOriginals (Suc n) sk =
     (let res = clonePass rejects placedOriginals (passState rejects placedOriginals n sk)
      in (fst res, fst (snd res)))"

definition passCount :: "(nat \<Rightarrow> bool) \<Rightarrow> ref list \<Rightarrow> nat \<Rightarrow> app \<times> nat \<Rightarrow> nat" where
  "passCount rejects placedOriginals n sk =
     snd (snd (clonePass rejects placedOriginals (passState rejects placedOriginals n sk)))"

text \<open>The \<open>finally\<close> block of \<open>fillSheet\<close>.\<close>

definition fillSheetFinally :: "app \<Rightarrow> app" where
  "fillSheetFinally st = saveState ((bringBleedObjectsToFront st)\<lparr> isRestoring := False \<rparr>)"

text \<open>
  The first stage of \<open>fillSheet\<close>: all originals are taken off the canvas, then added
  again and placed one at a time. The result holds the state, \<open>placedOriginals\<close> and
  \<open>failedOriginals\<close>.
\<close>

definition arrangeOriginals :: "app \<Rightarrow> ref list \<Rightarrow> app \<times> ref list \<times> ref list" where
  "arrangeOriginals st originals =
     foldl arrangeOriginal (foldl canvas_remove st originals, [], []) originals"

text \<open>
  \<open>fillSheet\<close>. With no canvas the first statement throws and the promise rejects
  (\<open>Inl TypeError\<close>); the result \<open>None\<close> is a call whose cloning loop never ends.
\<close>

definition fillSheet :: "(nat \<Rightarrow> bool) \<Rightarrow> app \<Rightarrow> (error + app) option" where
  "fillSheet rejects st =
     (case canvas st of
        None \<Rightarrow> Some (Inl TypeError)
      | Some c \<Rightarrow>
          (let userObjects = getUserObjects c (heap st) in
           if length userObjects = 0 then Some (Inr st)
           else
             (let originals = userObjects;
                  arranged = arrangeOriginals (st\<lparr> isRestoring := True \<rparr>) originals;
                  placedOriginals = fst (snd arranged)
              in if length placedOriginals > 0
                 then map_option (\<lambda>res. Inr (fillSheetFinally (fst res)))
                        (cloneLoop rejects placedOriginals (fst arranged, 0))
                 else Some (Inr (fillSheetFinally (fst arranged))))))"

section \<open>History\<close>

text \<open>
  \<open>saveStateImmediate\<close>. \<open>JSON.stringify\<close> of the version and of the \<open>toJSON\<close> forms of the
  user objects is the parameter \<open>stringify\<close>, a function of the user objects in canvas order.
\<close>

definition saveStateImmediate :: "(fobject list \<Rightarrow> string) \<Rightarrow> app \<Rightarrow> app" where
  "saveStateImmediate stringify st =
     (case canvas st of
        None \<Rightarrow> st
      | Some c \<Rightarrow>
          if isRestoring st then st
          else
            (let objectsToSave = getUserObjects c (heap st);
                 state = stringify (map (heap st) objectsToSave)
             in if length (undoStack st) = 0 \<or> last (undoStack st) \<noteq> state
                then
                  (let pushed = undoStack st @ [state];
                       limited = (if length pushed > MAX_HISTORY then tl pushed else pushed)
                   in st\<lparr> undoStack := limited, redoStack := [] \<rparr>)
                else st))"

text \<open>The callback of the debounce timer armed by \<open>saveState\<close>.\<close>

definition saveStateTimerFires :: "(fobject list \<Rightarrow> string) \<Rightarrow> app \<Rightarrow> app" where
  "saveStateTimerFires stringify st =
     (if saveStateTimeout st
      then saveStateImmediate stringify (st\<lparr> saveStateTimeout := False \<rparr>)
      else st)"

text \<open>
  A run of captures: before each one the scene (canvas and store) is replaced by the next
  element of the list.
\<close>

definition captureAll ::
    "(fobject list \<Rightarrow> string) \<Rightarrow> app \<Rightarrow> (canvas \<times> (ref \<Rightarrow> fobject)) list \<Rightarrow> app" where
  "captureAll stringify st scenes =
     foldl (\<lambda>s scene. saveStateImmediate stringify (s\<lparr> canvas := Some (fst scene), heap := snd scene \<rparr>))
       st scenes"

text \<open>The serialised form of a scene, as \<open>saveStateImmediate\<close> computes it.\<close>

definition snapshotOf :: "(fobject list \<Rightarrow> string) \<Rightarrow> canvas \<times> (ref \<Rightarrow> fobject) \<Rightarrow> string" where
  "snapshotOf stringify scene = stringify (map (snd scene) (getUserObjects (fst scene) (snd scene)))"

text \<open>\<open>canvas.add(new fabric.Rect({...}))\<close>: the rectangle is allocated, then added.\<close>

definition canvas_add_new :: "app \<Rightarrow> fobject \<Rightarrow> app" where
  "canvas_add_new st obj =
     (case canvas st of
        None \<Rightarrow> st
      | Some c \<Rightarrow>
          (let r = newRef (objects c) in canvas_add (st\<lparr> heap := (heap st)(r := obj) \<rparr>) r))"

text \<open>
  A Fabric rectangle with the given name, position and size; the origin is Fabric's default
  (left, top), and it is not rotated. The geometry of the bleed decoration is carried along, no modelled code reads
  it.
\<close>

definition fabricRect :: "string \<Rightarrow> real \<Rightarrow> real \<Rightarrow> real \<Rightarrow> real \<Rightarrow> fobject" where
  "fabricRect nm l t w h =
     \<lparr> name = nm, obj_left = l, obj_top = t, originX = XLeft, originY = YTop,
       scaledWidth = w, scaledHeight = h, angle = 0 \<rparr>"

text \<open>
  \<open>createBleedArea\<close>: the old decoration is removed, four overlays and the dashed safe-area
  frame are added, and the decoration is brought to the front. (The function divides by
  \<open>canvas.getZoom()\<close> as it is; for a zoom of \<open>0\<close> JavaScript yields \<open>Infinity\<close> where
  the model has \<open>0\<close>. The stroke of the frame is not added to its size.)
\<close>

definition createBleedArea :: "app \<Rightarrow> app" where
  "createBleedArea st =
     (case canvas st of
        None \<Rightarrow> st
      | Some c \<Rightarrow>
          (let st1 = foldl canvas_remove st
                       (filter (\<lambda>obj. isBleedObject (heap st obj)) (objects c));
               w = width c / zoom c;
               h = height c / zoom c;
               st2 = foldl canvas_add_new st1
                 [fabricRect ''bleedOverlay'' 0 0 w BLEED_PIXELS,
                  fabricRect ''bleedOverlay'' 0 (h - BLEED_PIXELS) w BLEED_PIXELS,
                  fabricRect ''bleedOverlay'' 0 BLEED_PIXELS BLEED_PIXELS (h - BLEED_PIXELS * 2),
                  fabricRect ''bleedOverlay'' (w - BLEED_PIXELS) BLEED_PIXELS BLEED_PIXELS
                    (h - BLEED_PIXELS * 2),
                  fabricRect ''bleedArea'' BLEED_PIXELS BLEED_PIXELS (w - BLEED_PIXELS * 2)
                    (h - BLEED_PIXELS * 2)]
           in bringBleedObjectsToFront st2))"

text \<open>
  \<open>canvas.loadFromJSON(state)\<close> when it fulfils: the objects of the canvas are replaced by the
  deserialised ones.
\<close>

definition loadObjects :: "app \<Rightarrow> fobject list \<Rightarrow> app" where
  "loadObjects st objs =
     foldl canvas_add_new
       (st\<lparr> canvas := map_option (\<lambda>c. c\<lparr> objects := [] \<rparr>) (canvas st) \<rparr>) objs"

text \<open>
  \<open>restoreState\<close>, followed up to the point where the promise of \<open>loadFromJSON\<close> has
  settled. Deserialisation belongs to Fabric: \<open>loadFromJSON state\<close> is \<open>Some\<close> of the
  deserialised objects when the promise fulfils and \<open>None\<close> when it rejects. Only a
  fulfilment handler is registered (\<open>.then\<close> with one argument), so on rejection nothing
  further runs. With no canvas the call \<open>canvas.loadFromJSON\<close> throws after the flag is set;
  \<open>Inl\<close> carries the error and the variables as the throw leaves them.
\<close>

definition restoreState ::
    "(string \<Rightarrow> fobject list option) \<Rightarrow> app \<Rightarrow> string \<Rightarrow> (error \<times> app) + app" where
  "restoreState loadFromJSON st state =
     (let st1 = st\<lparr> isRestoring := True \<rparr> in
      case canvas st1 of
        None \<Rightarrow> Inl (TypeError, st1)
      | Some c \<Rightarrow>
          (case loadFromJSON state of
             None \<Rightarrow> Inr st1
           | Some objs \<Rightarrow>
               Inr ((createBleedArea (loadObjects st1 objs))\<lparr> isRestoring := False \<rparr>)))"

definition undo :: "(string \<Rightarrow> fobject list option) \<Rightarrow> app \<Rightarrow> (error \<times> app) + app" where
  "undo loadFromJSON st =
     (if length (undoStack st) \<le> 1 then Inr st
      else
        (let currentState = last (undoStack st);
             st1 = st\<lparr> undoStack := butlast (undoStack st),
                       redoStack := redoStack st @ [currentState] \<rparr>;
             previousState = last (undoStack st1)
         in restoreState loadFromJSON st1 previousState))"

definition redo :: "(string \<Rightarrow> fobject list option) \<Rightarrow> app \<Rightarrow> (error \<times> app) + app" where
  "redo loadFromJSON st =
     (if length (redoStack st) = 0 then Inr st
      else
        (let state = last (redoStack st);
             st1 = st\<lparr> redoStack := butlast (redoStack st),
                       undoStack := undoStack st @ [state] \<rparr>
         in restoreState loadFromJSON st1 state))"

section \<open>Notions used to state the properties\<close>

text \<open>Two rectangles overlap when their intersection has positive area.\<close>

definition overlaps :: "rect \<Rightarrow> rect \<Rightarrow> bool" where
  "overlaps a b \<longleftrightarrow>
     max (rect_left a) (rect_left b) < min (rect_right a) (rect_right b) \<and>
     max (rect_top a) (rect_top b) < min (rect_bottom a) (rect_bottom b)"

text \<open>The point \<open>(x, y)\<close> lies in the (closed) rectangle.\<close>

definition insideRect :: "real \<Rightarrow> real \<Rightarrow> rect \<Rightarrow> bool" where
  "insideRect x y r \<longleftrightarrow>
     rect_left r \<le> x \<and> x \<le> rect_right r \<and> rect_top r \<le> y \<and> y \<le> rect_bottom r"

text \<open>The invariant of the data model: \<open>left < right\<close> and \<open>top < bottom\<close>.\<close>

definition properRect :: "rect \<Rightarrow> bool" where
  "properRect r \<longleftrightarrow> rect_left r < rect_right r \<and> rect_top r < rect_bottom r"

text \<open>A bounding box as a rectangle.\<close>

definition boundsRect :: "bounds \<Rightarrow> rect" where
  "boundsRect b =
     \<lparr> rect_left = bounds_left b, rect_top = bounds_top b,
       rect_right = bounds_left b + bounds_width b,
       rect_bottom = bounds_top b + bounds_height b \<rparr>"

text \<open>The last \<open>n\<close> elements of a list.\<close>

definition lastN :: "nat \<Rightarrow> 'a list \<Rightarrow> 'a list" where
  "lastN n xs = drop (length xs - n) xs"

text \<open>The user objects of the scene, by value and in canvas order (\<open>objectsToSave\<close>).\<close>

definition sceneOf :: "app \<Rightarrow> fobject list option" where
  "sceneOf st = map_option (\<lambda>c. map (heap st) (getUserObjects c (heap st))) (canvas st)"

text \<open>The footprint of an object is no wider and no higher than the safe area.\<close>

definition fitsSafeArea :: "rect \<Rightarrow> fobject \<Rightarrow> bool" where
  "fitsSafeArea safeRect obj \<longleftrightarrow>
     scaledWidth obj \<le> rect_right safeRect - rect_left safeRect \<and>
     scaledHeight obj \<le> rect_bottom safeRect - rect_top safeRect"

text \<open>An object that is not rotated and has no negative footprint.\<close>

definition upright :: "fobject \<Rightarrow> bool" where
  "upright obj \<longleftrightarrow> angle obj = 0 \<and> 0 \<le> scaledWidth obj \<and> 0 \<le> scaledHeight obj"

text \<open>
  A whole number of moderate size. The sums, differences and halves of such numbers that the
  placement computes are exact in double precision as well, so on them the code computes
  what the model does.
\<close>

definition wholeNumber :: "real \<Rightarrow> bool" where
  "wholeNumber x \<longleftrightarrow> of_int \<lfloor>x\<rfloor> = x \<and> \<bar>x\<bar> \<le> 2 ^ 32"

text \<open>
  The invariant of the second loop of \<open>reflowObjectsIntoSafeArea\<close>: the flag is set, the
  canvas keeps its size, the objects on the canvas and those still to be placed again are
  together the objects of the canvas at the start, every user object on the canvas is still to
  be placed again or lies inside the safe area, and every object still to be placed is upright
  and fits the safe area.
\<close>

definition reflowInv :: "rect \<Rightarrow> canvas \<Rightarrow> app \<Rightarrow> ref list \<Rightarrow> bool" where
  "reflowInv S c st todo \<longleftrightarrow>
     isRestoring st \<and>
     (\<exists>c'. canvas st = Some c' \<and> width c' = width c \<and> height c' = height c \<and> zoom c' = zoom c \<and>
        set (objects c') \<union> set todo = set (objects c) \<and>
        (\<forall>r\<in>set (objects c'). \<not> isBleedObject (heap st r) \<longrightarrow>
           r \<in> set todo \<or> \<not> outOfBounds S (getBoundingRect (heap st r)))) \<and>
     (\<forall>r\<in>set todo. upright (heap st r) \<and> fitsSafeArea S (heap st r))"

text \<open>
  The safe area is cut into square cells whose side is the gutter. \<open>cellOf\<close> is the cell
  that holds the centre of a bounding box.
\<close>

definition cellOf :: "rect \<Rightarrow> bounds \<Rightarrow> int \<times> int" where
  "cellOf S b =
     (\<lfloor>(bounds_left b + bounds_width b / 2 - rect_left S) / PLACEMENT_GUTTER\<rfloor>,
      \<lfloor>(bounds_top b + bounds_height b / 2 - rect_top S) / PLACEMENT_GUTTER\<rfloor>)"

text \<open>The cells that meet the safe area: finitely many.\<close>

definition cells :: "rect \<Rightarrow> (int \<times> int) set" where
  "cells S =
     {0 .. \<lfloor>(rect_right S - rect_left S) / PLACEMENT_GUTTER\<rfloor>} \<times>
     {0 .. \<lfloor>(rect_bottom S - rect_top S) / PLACEMENT_GUTTER\<rfloor>}"

text \<open>The cells of the safe area that hold the centre of a user object on the canvas.\<close>

definition occupied :: "rect \<Rightarrow> canvas \<Rightarrow> (ref \<Rightarrow> fobject) \<Rightarrow> (int \<times> int) set" where
  "occupied S c h =
     (\<lambda>r. cellOf S (getBoundingRect (h r))) ` set (getUserObjects c h) \<inter> cells S"

text \<open>
  The invariant of the cloning loop: the flag is set, the canvas keeps its size, the placed
  originals are user objects on the canvas, and no user object on the canvas has a negative
  footprint.
\<close>

definition fillInv :: "canvas \<Rightarrow> ref list \<Rightarrow> app \<Rightarrow> bool" where
  "fillInv c0 placedOriginals st \<longleftrightarrow>
     isRestoring st \<and>
     (\<exists>c. canvas st = Some c \<and> width c = width c0 \<and> height c = height c0 \<and> zoom c = zoom c0 \<and>
        set placedOriginals \<subseteq> set (getUserObjects c (heap st)) \<and>
        (\<forall>r\<in>set (getUserObjects c (heap st)).
           0 \<le> scaledWidth (heap st r) \<and> 0 \<le> scaledHeight (heap st r)))"

text \<open>The occupied cells of a state, for the safe area of the canvas \<open>c0\<close>.\<close>

definition occupiedIn :: "canvas \<Rightarrow> app \<Rightarrow> (int \<times> int) set" where
  "occupiedIn c0 st =
     (case canvas st of
        None \<Rightarrow> {}
      | Some c \<Rightarrow> occupied (safeRectOf c0) c (heap st))"

text \<open>\<open>placedOriginals\<close> as the first stage of \<open>fillSheet\<close> leaves it.\<close>

definition placedOriginalsOf :: "app \<Rightarrow> canvas \<Rightarrow> ref list" where
  "placedOriginalsOf st c =
     fst (snd (arrangeOriginals (st\<lparr> isRestoring := True \<rparr>) (getUserObjects c (heap st))))"

text \<open>The state in which \<open>fillSheet\<close> enters its cloning loop; no clone was made yet.\<close>

definition loopStart :: "app \<Rightarrow> canvas \<Rightarrow> app \<times> nat" where
  "loopStart st c =
     (fst (arrangeOriginals (st\<lparr> isRestoring := True \<rparr>) (getUserObjects c (heap st))), 0)"

text \<open>
  The invariant of the first stage of \<open>fillSheet\<close>: the flag is set, the canvas keeps its
  size and holds only objects it held before, the placed originals are on the canvas and among
  the originals, and every object keeps its name and footprint.
\<close>

definition arrangeInv :: "app \<Rightarrow> canvas \<Rightarrow> ref list \<Rightarrow> app \<Rightarrow> ref list \<Rightarrow> bool" where
  "arrangeInv st0 c0 originals st placed \<longleftrightarrow>
     isRestoring st \<and>
     (\<exists>c. canvas st = Some c \<and> width c = width c0 \<and> height c = height c0 \<and> zoom c = zoom c0 \<and>
        set (objects c) \<subseteq> set (objects c0) \<and> set placed \<subseteq> set (objects c)) \<and>
     set placed \<subseteq> set originals \<and>
     (\<forall>r. name (heap st r) = name (heap st0 r) \<and>
          scaledWidth (heap st r) = scaledWidth (heap st0 r) \<and>
          scaledHeight (heap st r) = scaledHeight (heap st0 r))"

section \<open>Example scenes\<close>

text \<open>
  An A5 sheet at 300 DPI and zoom 1 with two items: the first sits in the top-left corner of
  the safe area, the second is the one to be placed.
\<close>

definition exampleCanvas :: canvas where
  "exampleCanvas = \<lparr> objects = [1, 2], width = 2480, height = 1748, zoom = 1 \<rparr>"

definition exampleHeap :: "ref \<Rightarrow> fobject" where
  "exampleHeap =
     (\<lambda>_. fabricRect [] 0 0 0 0)
       (1 := \<lparr> name = ''first'', obj_left = 179, obj_top = 129, originX = XCenter,
               originY = YCenter, scaledWidth = 200, scaledHeight = 100, angle = 0 \<rparr>,
        2 := \<lparr> name = ''second'', obj_left = 0, obj_top = 0, originX = XLeft,
               originY = YTop, scaledWidth = 300, scaledHeight = 150, angle = 0 \<rparr>)"

definition exampleApp :: app where
  "exampleApp =
     \<lparr> canvas = Some exampleCanvas, heap = exampleHeap, undoStack = [], redoStack = [],
       isRestoring = False, saveStateTimeout = False \<rparr>"

text \<open>
  The same sheet with the first item further in and a second item, 350 by 100, that was turned
  by 90 degrees before it is placed.
\<close>

definition exampleRotatedHeap :: "ref \<Rightarrow> fobject" where
  "exampleRotatedHeap =
     (\<lambda>_. fabricRect [] 0 0 0 0)
       (1 := \<lparr> name = ''first'', obj_left = 300, obj_top = 300, originX = XCenter,
               originY = YCenter, scaledWidth = 200, scaledHeight = 100, angle = 0 \<rparr>,
        2 := \<lparr> name = ''turned'', obj_left = 0, obj_top = 0, originX = XLeft,
               originY = YTop, scaledWidth = 350, scaledHeight = 100, angle = 90 \<rparr>)"

definition exampleRotated :: app where
  "exampleRotated =
     \<lparr> canvas = Some exampleCanvas, heap = exampleRotatedHeap, undoStack = [], redoStack = [],
       isRestoring = False, saveStateTimeout = False \<rparr>"

text \<open>A serialiser for the examples: the names of the objects, each closed by a semicolon.\<close>

definition exampleStringify :: "fobject list \<Rightarrow> string" where
  "exampleStringify objs = concat (map (\<lambda>obj. name obj @ '';'') objs)"

text \<open>A deserialiser whose promise rejects for every snapshot.\<close>

definition rejectingLoad :: "string \<Rightarrow> fobject list option" where
  "rejectingLoad state = None"

text \<open>A deserialiser for the examples: one object, named by the snapshot.\<close>

definition exampleLoad :: "string \<Rightarrow> fobject list option" where
  "exampleLoad state = Some [fabricRect state 0 0 10 10]"

text \<open>The \<open>k\<close>-th scene of a run of captures: \<open>k\<close> copies of one object.\<close>

definition exampleScene :: "nat \<Rightarrow> canvas \<times> (ref \<Rightarrow> fobject)" where
  "exampleScene k =
     (\<lparr> objects = [0..<k], width = 2480, height = 1748, zoom = 1 \<rparr>,
      (\<lambda>_. fabricRect ''a'' 0 0 10 10))"

text \<open>Twenty-five scenes, each different from the one before.\<close>

definition exampleScenes :: "(canvas \<times> (ref \<Rightarrow> fobject)) list" where
  "exampleScenes = map exampleScene [1..<26]"

text \<open>A state caught while a restore is under way.\<close>

definition exampleRestoring :: app where
  "exampleRestoring = exampleApp\<lparr> isRestoring := True, undoStack := [''x''], redoStack := [''y''] \<rparr>"

text \<open>A state whose undo stack holds the initial snapshot only.\<close>

definition exampleHistory :: app where
  "exampleHistory = exampleApp\<lparr> undoStack := [''x''] \<rparr>"

text \<open>A sheet with one item that is wider than the safe area.\<close>

definition exampleOversized :: app where
  "exampleOversized =
     \<lparr> canvas = Some \<lparr> objects = [1], width = 2480, height = 1748, zoom = 1 \<rparr>,
       heap = (\<lambda>_. \<lparr> name = ''wide'', obj_left = 0, obj_top = 0, originX = XLeft,
                      originY = YTop, scaledWidth = 3000, scaledHeight = 100, angle = 0 \<rparr>),
       undoStack = [], redoStack = [], isRestoring = False, saveStateTimeout = False \<rparr>"

text \<open>Every call of \<open>clone()\<close> settles.\<close>

definition neverRejects :: "nat \<Rightarrow> bool" where
  "neverRejects k = False"

text \<open>A sheet with one item so large that exactly one clone of it fits.\<close>

definition exampleFillCanvas :: canvas where
  "exampleFillCanvas = \<lparr> objects = [1], width = 2480, height = 1748, zoom = 1 \<rparr>"

definition exampleFill :: app where
  "exampleFill =
     \<lparr> canvas = Some exampleFillCanvas,
       heap = (\<lambda>_. \<lparr> name = ''big'', obj_left = 0, obj_top = 0, originX = XLeft,
                      originY = YTop, scaledWidth = 1200, scaledHeight = 700, angle = 0 \<rparr>),
       undoStack = [], redoStack = [], isRestoring = False, saveStateTimeout = False \<rparr>"

text \<open>The same sheet after the first round of cloning.\<close>

definition exampleFilled :: app where
  "exampleFilled =
     exampleFill\<lparr> isRestoring := True,
        canvas := Some (exampleFillCanvas\<lparr> objects := [1, 2] \<rparr>),
        heap := (heap exampleFill)
          (1 := \<lparr> name = ''big'', obj_left = 679, obj_top = 429, originX = XCenter,
                 originY = YCenter, scaledWidth = 1200, scaledHeight = 700, angle = 0 \<rparr>,
           2 := \<lparr> name = ''big'', obj_left = 679, obj_top = 1141, originX = XCenter,
                 originY = YCenter, scaledWidth = 1200, scaledHeight = 700, angle = 0 \<rparr>) \<rparr>"

section \<open>The bounding box\<close>

lemma degreesToRadians_0 [simp]: "degreesToRadians 0 = 0"
  by (simp add: degreesToRadians_def)

lemma cos_90 [simp]: "cos (degreesToRadians 90) = 0"
  and sin_90 [simp]: "sin (degreesToRadians 90) = 1"
proof -
  have e: "degreesToRadians 90 = pi / 2" by (simp add: degreesToRadians_def)
  show "cos (degreesToRadians 90) = 0" unfolding e by (rule cos_pi_half)
  show "sin (degreesToRadians 90) = 1" unfolding e by (rule sin_pi_half)
qed

lemma boxWidth_nonneg: "0 \<le> boxWidth obj" and boxHeight_nonneg: "0 \<le> boxHeight obj"
  by (simp_all add: boxWidth_def boxHeight_def)

lemmas getBoundingRect_eval = getBoundingRect_def getCenterPoint_def boxWidth_def boxHeight_def
  originOffsetX_def originOffsetY_def

text \<open>The box of an item that is not rotated is its footprint.\<close>

lemma getBoundingRect_unrotated:
  assumes "angle obj = 0" "0 \<le> scaledWidth obj" "0 \<le> scaledHeight obj"
  shows "getBoundingRect obj =
     \<lparr> bounds_left =
         (case originX obj of
            XLeft \<Rightarrow> obj_left obj
          | XCenter \<Rightarrow> obj_left obj - scaledWidth obj / 2
          | XRight \<Rightarrow> obj_left obj - scaledWidth obj),
       bounds_top =
         (case originY obj of
            YTop \<Rightarrow> obj_top obj
          | YCenter \<Rightarrow> obj_top obj - scaledHeight obj / 2
          | YBottom \<Rightarrow> obj_top obj - scaledHeight obj),
       bounds_width = scaledWidth obj,
       bounds_height = scaledHeight obj \<rparr>"
  using assms by (simp add: getBoundingRect_eval split: originX.splits originY.splits)

text \<open>An item with origin \<open>center\<close> has its box centred on its position, rotated or not.\<close>

lemma getBoundingRect_centred:
  assumes "originX obj = XCenter" "originY obj = YCenter"
  shows "bounds_left (getBoundingRect obj) + bounds_width (getBoundingRect obj) / 2 = obj_left obj"
    and "bounds_top (getBoundingRect obj) + bounds_height (getBoundingRect obj) / 2 = obj_top obj"
  using assms by (simp_all add: getBoundingRect_eval)

section \<open>Rectangle subtraction and pruning\<close>

lemma subtractRect_no_overlap: "\<not> overlaps f b \<Longrightarrow> subtractRect f b = [f]"
  by (auto simp: subtractRect_def overlaps_def intersection_def Let_def)

lemma subtractRect_overlap: "overlaps f b \<Longrightarrow> subtractRect f b = filter notSliver (remainders f b)"
  by (auto simp: subtractRect_def overlaps_def intersection_def Let_def)

lemma length_remainders: "length (remainders f b) \<le> 4"
  by (simp add: remainders_def Let_def)

lemma remainders_overlap:
  assumes "overlaps f b"
  shows "remainders f b =
     (if rect_top f < rect_top b
      then [\<lparr> rect_left = rect_left f, rect_top = rect_top f,
               rect_right = rect_right f, rect_bottom = rect_top b \<rparr>] else [])
   @ (if rect_bottom b < rect_bottom f
      then [\<lparr> rect_left = rect_left f, rect_top = rect_bottom b,
               rect_right = rect_right f, rect_bottom = rect_bottom f \<rparr>] else [])
   @ (if rect_left f < rect_left b
      then [\<lparr> rect_left = rect_left f, rect_top = max (rect_top f) (rect_top b),
               rect_right = rect_left b, rect_bottom = min (rect_bottom f) (rect_bottom b) \<rparr>] else [])
   @ (if rect_right b < rect_right f
      then [\<lparr> rect_left = rect_right b, rect_top = max (rect_top f) (rect_top b),
               rect_right = rect_right f, rect_bottom = min (rect_bottom f) (rect_bottom b) \<rparr>] else [])"
proof -
  have t: "rect_top f < max (rect_top f) (rect_top b) \<longleftrightarrow> rect_top f < rect_top b"
    and tv: "rect_top f < rect_top b \<Longrightarrow> max (rect_top f) (rect_top b) = rect_top b"
    and bo: "min (rect_bottom f) (rect_bottom b) < rect_bottom f \<longleftrightarrow> rect_bottom b < rect_bottom f"
    and bv: "rect_bottom b < rect_bottom f \<Longrightarrow> min (rect_bottom f) (rect_bottom b) = rect_bottom b"
    and l: "rect_left f < max (rect_left f) (rect_left b) \<longleftrightarrow> rect_left f < rect_left b"
    and lv: "rect_left f < rect_left b \<Longrightarrow> max (rect_left f) (rect_left b) = rect_left b"
    and r: "min (rect_right f) (rect_right b) < rect_right f \<longleftrightarrow> rect_right b < rect_right f"
    and rv: "rect_right b < rect_right f \<Longrightarrow> min (rect_right f) (rect_right b) = rect_right b"
    by auto
  have m: "max (rect_top f) (rect_top b) < min (rect_bottom f) (rect_bottom b)"
    using assms by (simp add: overlaps_def)
  show ?thesis
    using m by (simp add: remainders_def intersection_def Let_def t tv bo bv l lv r rv)
qed

lemma remainders_cover:
  assumes "overlaps f b" "insideRect x y f" "\<not> insideRect x y b"
  shows "\<exists>r\<in>set (remainders f b). insideRect x y r"
proof -
  from assms(2) have f: "rect_left f \<le> x" "x \<le> rect_right f" "rect_top f \<le> y" "y \<le> rect_bottom f"
    by (simp_all add: insideRect_def)
  from assms(3) consider "y < rect_top b" | "rect_bottom b < y"
    | "rect_top b \<le> y" "y \<le> rect_bottom b" "x < rect_left b"
    | "rect_top b \<le> y" "y \<le> rect_bottom b" "rect_right b < x"
    unfolding insideRect_def by (meson not_le)
  then show ?thesis
  proof cases
    case 1
    with f show ?thesis by (simp add: remainders_overlap[OF assms(1)] insideRect_def)
  next
    case 2
    with f show ?thesis by (simp add: remainders_overlap[OF assms(1)] insideRect_def)
  next
    case 3
    with f show ?thesis by (simp add: remainders_overlap[OF assms(1)] insideRect_def)
  next
    case 4
    with f show ?thesis by (simp add: remainders_overlap[OF assms(1)] insideRect_def)
  qed
qed

lemma remainders_sub:
  assumes "overlaps f b" "r \<in> set (remainders f b)"
  shows "containsRect f r"
proof -
  have "rect_left f < rect_right b" "rect_left b < rect_right f"
       "rect_top f < rect_bottom b" "rect_top b < rect_bottom f"
    using assms(1) by (simp_all add: overlaps_def)
  then show ?thesis
    using assms(2)
    by (auto simp: remainders_overlap[OF assms(1)] containsRect_def split: if_splits)
qed

lemma remainders_disjoint:
  assumes "overlaps f b" "r \<in> set (remainders f b)"
  shows "\<not> overlaps r b"
  using assms(2)
  by (auto simp: remainders_overlap[OF assms(1)] overlaps_def split: if_splits)

lemma notSliver_proper: "notSliver r \<Longrightarrow> properRect r"
  by (simp add: notSliver_def properRect_def)

lemma containsRect_refl: "containsRect r r"
  by (simp add: containsRect_def)

lemma subtractRect_sub: "r \<in> set (subtractRect f b) \<Longrightarrow> containsRect f r"
proof (cases "overlaps f b")
  case True
  then show "r \<in> set (subtractRect f b) \<Longrightarrow> containsRect f r"
    by (simp add: subtractRect_overlap remainders_sub)
next
  case False
  then show "r \<in> set (subtractRect f b) \<Longrightarrow> containsRect f r"
    by (simp add: subtractRect_no_overlap containsRect_refl)
qed

lemma subtractRect_disjoint: "r \<in> set (subtractRect f b) \<Longrightarrow> \<not> overlaps r b"
  by (cases "overlaps f b")
     (auto simp: subtractRect_no_overlap subtractRect_overlap remainders_disjoint)

lemma subtractRect_proper: "properRect f \<Longrightarrow> r \<in> set (subtractRect f b) \<Longrightarrow> properRect r"
  by (cases "overlaps f b")
     (auto simp: subtractRect_no_overlap subtractRect_overlap notSliver_proper)

lemma prune_mem:
  "r \<in> set (pruneContainedRects rs) \<longleftrightarrow>
     (\<exists>i<length rs. rs ! i = r \<and> (\<forall>j<length rs. j \<noteq> i \<longrightarrow> \<not> containsRect (rs ! j) r))"
  by (force simp: pruneContainedRects_def list_ex_iff in_set_enumerate_eq image_iff)

section \<open>The free-rectangle list\<close>

lemma containsRect_trans: "containsRect a b \<Longrightarrow> containsRect b c \<Longrightarrow> containsRect a c"
  by (auto simp: containsRect_def)

lemma overlaps_mono: "containsRect r0 r \<Longrightarrow> overlaps r b \<Longrightarrow> overlaps r0 b"
  by (auto simp: containsRect_def overlaps_def)

lemma subtractBlocker_mem:
  assumes "r \<in> set (subtractBlocker S frs b)"
  shows "\<exists>r0\<in>set frs. containsRect r0 r \<and> (properRect r0 \<longrightarrow> properRect r)"
proof (cases "clampRect (blockerOf b) S")
  case None
  with assms have "r \<in> set frs" by (simp add: subtractBlocker_def)
  then show ?thesis using containsRect_refl by blast
next
  case (Some cb)
  with assms obtain r0 where "r0 \<in> set frs" "r \<in> set (subtractRect r0 cb)"
    by (auto simp: subtractBlocker_def)
  then show ?thesis
    using subtractRect_sub subtractRect_proper by blast
qed

lemma subtractBlocker_disjoint:
  assumes "r \<in> set (subtractBlocker S frs b)" "clampRect (blockerOf b) S = Some cb"
  shows "\<not> overlaps r cb"
  using assms by (auto simp: subtractBlocker_def dest: subtractRect_disjoint)

lemma foldl_subtract_mem:
  "r \<in> set (foldl (subtractBlocker S) frs bs) \<Longrightarrow>
     \<exists>r0\<in>set frs. containsRect r0 r \<and> (properRect r0 \<longrightarrow> properRect r)"
proof (induction bs arbitrary: frs)
  case Nil
  then show ?case using containsRect_refl by auto
next
  case (Cons b bs)
  from Cons.IH[of "subtractBlocker S frs b"] Cons.prems
  obtain r1 where r1: "r1 \<in> set (subtractBlocker S frs b)" "containsRect r1 r"
      "properRect r1 \<longrightarrow> properRect r"
    by auto
  from subtractBlocker_mem[OF r1(1)] obtain r0 where
    "r0 \<in> set frs" "containsRect r0 r1" "properRect r0 \<longrightarrow> properRect r1"
    by auto
  with r1 show ?case
    using containsRect_trans by blast
qed

lemma foldl_subtract_disjoint:
  "r \<in> set (foldl (subtractBlocker S) frs bs) \<Longrightarrow> b \<in> set bs \<Longrightarrow>
     clampRect (blockerOf b) S = Some cb \<Longrightarrow> \<not> overlaps r cb"
proof (induction bs arbitrary: frs)
  case Nil
  then show ?case by simp
next
  case (Cons a bs)
  show ?case
  proof (cases "b \<in> set bs")
    case True
    with Cons.IH[of "subtractBlocker S frs a"] Cons.prems show ?thesis by simp
  next
    case False
    with Cons.prems have ab: "a = b" by simp
    from Cons.prems(1) have "r \<in> set (foldl (subtractBlocker S) (subtractBlocker S frs a) bs)"
      by simp
    from foldl_subtract_mem[OF this] obtain r1 where
      r1: "r1 \<in> set (subtractBlocker S frs a)" "containsRect r1 r"
      by auto
    have "\<not> overlaps r1 cb"
      using subtractBlocker_disjoint[OF r1(1)] Cons.prems(3) ab by simp
    with r1(2) show ?thesis
      using overlaps_mono by blast
  qed
qed

lemma prune_subset: "set (pruneContainedRects rs) \<subseteq> set rs"
  by (auto simp: prune_mem)

lemma computeFreeSpace_inside:
  assumes "r \<in> set (computeFreeSpace S bs)"
  shows "containsRect S r"
proof -
  from assms have "r \<in> set (foldl (subtractBlocker S) [S] bs)"
    using prune_subset by (auto simp: computeFreeSpace_def)
  from foldl_subtract_mem[OF this] show ?thesis by simp
qed

lemma computeFreeSpace_proper:
  assumes "r \<in> set (computeFreeSpace S bs)" "properRect S"
  shows "properRect r"
proof -
  from assms have "r \<in> set (foldl (subtractBlocker S) [S] bs)"
    using prune_subset by (auto simp: computeFreeSpace_def)
  from foldl_subtract_mem[OF this] assms(2) show ?thesis by simp
qed

lemma overlaps_clamp:
  assumes "containsRect S r" "overlaps r B"
  shows "\<exists>cb. clampRect B S = Some cb \<and> overlaps r cb"
  using assms
  by (auto simp: containsRect_def overlaps_def clampRect_def Let_def)

lemma computeFreeSpace_disjoint:
  assumes "r \<in> set (computeFreeSpace S bs)" "b \<in> set bs"
  shows "\<not> overlaps r (blockerOf b)"
proof
  assume ov: "overlaps r (blockerOf b)"
  from overlaps_clamp[OF computeFreeSpace_inside[OF assms(1)] ov]
  obtain cb where cb: "clampRect (blockerOf b) S = Some cb" "overlaps r cb" by auto
  from assms(1) have "r \<in> set (foldl (subtractBlocker S) [S] bs)"
    using prune_subset by (auto simp: computeFreeSpace_def)
  from foldl_subtract_disjoint[OF this assms(2) cb(1)] cb(2) show False by simp
qed

lemma set_sortRects: "set (sortRects rs) = set rs"
  by (simp add: sortRects_def)

lemma arrange_found:
  assumes "canvas st = Some c" "\<not> safeInvalid (safeRectOf c)"
    "find (fits (scaledWidth (heap st obj)) (scaledHeight (heap st obj)))
       (sortRects (computeFreeSpace (safeRectOf c)
          (map (\<lambda>b. getBoundingRect (heap st b)) (blockersOf c (heap st) obj)))) = Some R"
  shows "arrangeObjectOnCanvas st (Some obj) =
     (st\<lparr> heap := (heap st)(obj := setCentre (heap st obj)
          (rect_left R + scaledWidth (heap st obj) / 2)
          (rect_top R + scaledHeight (heap st obj) / 2)) \<rparr>, True)"
  using assms by (simp add: arrangeObjectOnCanvas_def Let_def)

lemma arrange_not_found:
  assumes "canvas st = Some c" "\<not> safeInvalid (safeRectOf c)"
    "find (fits (scaledWidth (heap st obj)) (scaledHeight (heap st obj)))
       (sortRects (computeFreeSpace (safeRectOf c)
          (map (\<lambda>b. getBoundingRect (heap st b)) (blockersOf c (heap st) obj)))) = None"
  shows "arrangeObjectOnCanvas st (Some obj) =
     (st\<lparr> heap := (heap st)(obj := setCentre (heap st obj)
          ((rect_left (safeRectOf c) + rect_right (safeRectOf c)) / 2)
          ((rect_top (safeRectOf c) + rect_bottom (safeRectOf c)) / 2)) \<rparr>, False)"
  using assms by (simp add: arrangeObjectOnCanvas_def Let_def)

lemma boundsRect_setCentre:
  assumes "angle ob = 0" "0 \<le> scaledWidth ob" "0 \<le> scaledHeight ob"
  shows "boundsRect (getBoundingRect (setCentre ob (x + scaledWidth ob / 2) (y + scaledHeight ob / 2))) =
     \<lparr> rect_left = x, rect_top = y, rect_right = x + scaledWidth ob,
       rect_bottom = y + scaledHeight ob \<rparr>"
  using assms by (simp add: boundsRect_def getBoundingRect_eval setCentre_def)

section \<open>Properties of the placement\<close>

lemma BLEED_PIXELS_eq: "BLEED_PIXELS = 59"
  by (simp add: BLEED_PIXELS_def Math_round_def BLEED_MM_def MM_TO_PIXELS_def)

lemma example_safe: "safeRectOf exampleCanvas = \<lparr>rect_left = 79, rect_top = 79, rect_right = 2401, rect_bottom = 1669\<rparr>"
  by (simp add: safeRectOf_def exampleCanvas_def BLEED_PIXELS_eq PLACEMENT_PADDING_def virtualWidth_def virtualHeight_def zoomOf_def)

lemma example_blockers: "map (\<lambda>b. getBoundingRect (exampleHeap b)) (blockersOf exampleCanvas exampleHeap 2)
  = [\<lparr>bounds_left = 79, bounds_top = 79, bounds_width = 200, bounds_height = 100\<rparr>]"
  by (simp add: blockersOf_def getUserObjects_def exampleCanvas_def exampleHeap_def isBleedObject_def getBoundingRect_eval)

lemma example_free: "computeFreeSpace (safeRectOf exampleCanvas) (map (\<lambda>b. getBoundingRect (exampleHeap b)) (blockersOf exampleCanvas exampleHeap 2))
  = [\<lparr>rect_left = 79, rect_top = 191, rect_right = 2401, rect_bottom = 1669\<rparr>,
     \<lparr>rect_left = 291, rect_top = 79, rect_right = 2401, rect_bottom = 191\<rparr>]"
  by (simp add: example_blockers example_safe computeFreeSpace_def subtractBlocker_def blockerOf_def PLACEMENT_GUTTER_def
     clampRect_def subtractRect_def intersection_def remainders_def notSliver_def Let_def pruneContainedRects_def enumerate_eq_zip containsRect_def upt_rec)

lemma example_canvas: "canvas exampleApp = Some exampleCanvas"
  by (simp add: exampleApp_def)

lemma example_heap: "heap exampleApp = exampleHeap"
  by (simp add: exampleApp_def)

lemma example_safe_valid: "\<not> safeInvalid (safeRectOf exampleCanvas)"
  by (simp add: example_safe safeInvalid_def)

lemma example_blockerRefs: "blockersOf exampleCanvas exampleHeap 2 = [1]"
  by (simp add: blockersOf_def getUserObjects_def exampleCanvas_def exampleHeap_def isBleedObject_def)

lemma example_rotated_blockers:
  "map (\<lambda>b. getBoundingRect (exampleRotatedHeap b)) (blockersOf exampleCanvas exampleRotatedHeap 2)
     = [\<lparr>bounds_left = 200, bounds_top = 250, bounds_width = 200, bounds_height = 100\<rparr>]"
  by (simp add: blockersOf_def getUserObjects_def exampleCanvas_def exampleRotatedHeap_def
      isBleedObject_def getBoundingRect_eval)

lemma example_rotated_free:
  "computeFreeSpace (safeRectOf exampleCanvas)
     [\<lparr>bounds_left = 200, bounds_top = 250, bounds_width = 200, bounds_height = 100\<rparr>]
   = [\<lparr>rect_left = 79, rect_top = 79, rect_right = 2401, rect_bottom = 238\<rparr>,
      \<lparr>rect_left = 79, rect_top = 362, rect_right = 2401, rect_bottom = 1669\<rparr>,
      \<lparr>rect_left = 79, rect_top = 238, rect_right = 188, rect_bottom = 362\<rparr>,
      \<lparr>rect_left = 412, rect_top = 238, rect_right = 2401, rect_bottom = 362\<rparr>]"
  by (simp add: example_safe computeFreeSpace_def subtractBlocker_def blockerOf_def PLACEMENT_GUTTER_def
     clampRect_def subtractRect_def intersection_def remainders_def notSliver_def Let_def pruneContainedRects_def enumerate_eq_zip containsRect_def upt_rec)

lemma example_rotated_arranged:
  "arrangeObjectOnCanvas exampleRotated (Some 2) =
     (exampleRotated\<lparr> heap := exampleRotatedHeap(2 := setCentre (exampleRotatedHeap 2) 254 129) \<rparr>, True)"
proof -
  have c: "canvas exampleRotated = Some exampleCanvas" and h: "heap exampleRotated = exampleRotatedHeap"
    by (simp_all add: exampleRotated_def)
  have "find (fits (scaledWidth (heap exampleRotated 2)) (scaledHeight (heap exampleRotated 2)))
       (sortRects (computeFreeSpace (safeRectOf exampleCanvas)
          (map (\<lambda>b. getBoundingRect (heap exampleRotated b))
             (blockersOf exampleCanvas (heap exampleRotated) 2))))
     = Some \<lparr>rect_left = 79, rect_top = 79, rect_right = 2401, rect_bottom = 238\<rparr>"
    unfolding h example_rotated_blockers example_rotated_free
    by (simp add: sortRects_def fits_def exampleRotatedHeap_def)
  from arrange_found[OF c example_safe_valid this] show ?thesis
    by (simp add: h exampleRotatedHeap_def)
qed

text \<open>
  Claim C1 fails on the code for an item that is rotated. The free-space computation yields
  a rectangle that takes the footprint of the turned item, and \<open>arrangeObjectOnCanvas\<close>
  returns \<open>true\<close>; but it sizes and centres the item by \<open>getScaledWidth\<close> and
  \<open>getScaledHeight\<close>, which do not follow the rotation, so the bounding box of the item at
  its new position, from 204 to 304 across and from -46 to 304 down, leaves the safe area at
  the top and overlaps the gutter-expanded box of the first item.
\<close>

theorem arrange_rotated_escapes:
  "list_ex (fits (scaledWidth (heap exampleRotated 2)) (scaledHeight (heap exampleRotated 2)))
     (computeFreeSpace (safeRectOf exampleCanvas)
        (map (\<lambda>b. getBoundingRect (heap exampleRotated b))
           (blockersOf exampleCanvas (heap exampleRotated) 2))) \<and>
   snd (arrangeObjectOnCanvas exampleRotated (Some 2)) \<and>
   boundsRect (getBoundingRect (heap (fst (arrangeObjectOnCanvas exampleRotated (Some 2))) 2)) =
     \<lparr>rect_left = 204, rect_top = - 46, rect_right = 304, rect_bottom = 304\<rparr> \<and>
   \<not> containsRect (safeRectOf exampleCanvas)
       (boundsRect (getBoundingRect (heap (fst (arrangeObjectOnCanvas exampleRotated (Some 2))) 2))) \<and>
   blockerOf (getBoundingRect (heap (fst (arrangeObjectOnCanvas exampleRotated (Some 2))) 1)) =
     \<lparr>rect_left = 188, rect_top = 238, rect_right = 412, rect_bottom = 362\<rparr> \<and>
   overlaps
     (boundsRect (getBoundingRect (heap (fst (arrangeObjectOnCanvas exampleRotated (Some 2))) 2)))
     (blockerOf (getBoundingRect (heap (fst (arrangeObjectOnCanvas exampleRotated (Some 2))) 1)))"
proof -
  have h: "heap exampleRotated = exampleRotatedHeap" by (simp add: exampleRotated_def)
  have 1: "list_ex (fits (scaledWidth (heap exampleRotated 2)) (scaledHeight (heap exampleRotated 2)))
     (computeFreeSpace (safeRectOf exampleCanvas)
        (map (\<lambda>b. getBoundingRect (heap exampleRotated b))
           (blockersOf exampleCanvas (heap exampleRotated) 2)))"
    unfolding h example_rotated_blockers example_rotated_free
    by (simp add: fits_def exampleRotatedHeap_def)
  have 2: "boundsRect (getBoundingRect (heap (fst (arrangeObjectOnCanvas exampleRotated (Some 2))) 2)) =
     \<lparr>rect_left = 204, rect_top = - 46, rect_right = 304, rect_bottom = 304\<rparr>"
    unfolding example_rotated_arranged
    by (simp add: exampleRotatedHeap_def setCentre_def boundsRect_def getBoundingRect_eval)
  have 3: "blockerOf (getBoundingRect (heap (fst (arrangeObjectOnCanvas exampleRotated (Some 2))) 1)) =
     \<lparr>rect_left = 188, rect_top = 238, rect_right = 412, rect_bottom = 362\<rparr>"
    unfolding example_rotated_arranged
    by (simp add: exampleRotatedHeap_def blockerOf_def PLACEMENT_GUTTER_def getBoundingRect_eval)
  show ?thesis
    unfolding 2 3 using 1
    by (simp add: example_rotated_arranged example_safe containsRect_def overlaps_def)
qed

lemma prune_pairwise:
  assumes "i < length (pruneContainedRects rs)" "j < length (pruneContainedRects rs)" "i \<noteq> j"
  shows "\<not> containsRect (pruneContainedRects rs ! j) (pruneContainedRects rs ! i)"
proof -
  define P where "P = (\<lambda>(index, r). \<not> list_ex (\<lambda>(otherIdx, other).
       if index = otherIdx then False else containsRect other r) (enumerate 0 rs))"
  define fl where "fl = filter P (enumerate 0 rs)"
  have pr: "pruneContainedRects rs = map snd fl"
    by (simp add: pruneContainedRects_def fl_def P_def)
  have d: "distinct fl" by (simp add: fl_def distinct_enumerate)
  from assms have ij: "i < length fl" "j < length fl" by (simp_all add: pr)
  then have ne: "fl ! i \<noteq> fl ! j" using d assms(3) by (simp add: nth_eq_iff_index_eq)
  obtain a r where a: "fl ! i = (a, r)" by (cases "fl ! i")
  obtain b r' where b: "fl ! j = (b, r')" by (cases "fl ! j")
  from ij a have ina: "(a, r) \<in> set (enumerate 0 rs)" and Pa: "P (a, r)"
    using nth_mem[of i fl] by (auto simp: fl_def)
  from ij b have inb: "(b, r') \<in> set (enumerate 0 rs)"
    using nth_mem[of j fl] by (auto simp: fl_def)
  from ina inb ne a b have "a \<noteq> b" by (auto simp: in_set_enumerate_eq)
  with Pa inb have "\<not> containsRect r' r"
    by (auto simp: P_def list_ex_iff)
  with ij a b show ?thesis by (simp add: pr)
qed

text \<open>
  Claim C5. Every rectangle of the computed free-space list lies inside the safe area, and
  no rectangle of the list is contained in a rectangle at another position of the list. The
  proof does not depend on the value of the gutter.
\<close>

theorem computeFreeSpace_invariant:
  "(\<forall>r\<in>set (computeFreeSpace safeRect bs). containsRect safeRect r) \<and>
   (\<forall>i<length (computeFreeSpace safeRect bs). \<forall>j<length (computeFreeSpace safeRect bs).
      i \<noteq> j \<longrightarrow>
        \<not> containsRect (computeFreeSpace safeRect bs ! j) (computeFreeSpace safeRect bs ! i))"
  using computeFreeSpace_inside prune_pairwise
  by (auto simp: computeFreeSpace_def)

theorem computeFreeSpace_invariant_witness:
  "length (computeFreeSpace (safeRectOf exampleCanvas)
      [\<lparr>bounds_left = 79, bounds_top = 79, bounds_width = 200, bounds_height = 100\<rparr>]) = 2 \<and>
   containsRect (safeRectOf exampleCanvas)
     (computeFreeSpace (safeRectOf exampleCanvas)
        [\<lparr>bounds_left = 79, bounds_top = 79, bounds_width = 200, bounds_height = 100\<rparr>] ! 0) \<and>
   \<not> containsRect
     (computeFreeSpace (safeRectOf exampleCanvas)
        [\<lparr>bounds_left = 79, bounds_top = 79, bounds_width = 200, bounds_height = 100\<rparr>] ! 1)
     (computeFreeSpace (safeRectOf exampleCanvas)
        [\<lparr>bounds_left = 79, bounds_top = 79, bounds_width = 200, bounds_height = 100\<rparr>] ! 0)"
  using computeFreeSpace_invariant[of "safeRectOf exampleCanvas"
      "[\<lparr>bounds_left = 79, bounds_top = 79, bounds_width = 200, bounds_height = 100\<rparr>]"]
    example_free[unfolded example_blockers]
  by (simp add: containsRect_def example_safe)

text \<open>
  Claim C10. A rectangle that stands at two positions of the input of
  \<open>pruneContainedRects\<close> does not occur in its output at all: each copy is contained in the
  other, so both are removed.
\<close>

theorem prune_drops_duplicates:
  assumes "i < length rects" "j < length rects" "i \<noteq> j" "rects ! i = rects ! j"
  shows "rects ! i \<notin> set (pruneContainedRects rects)"
proof
  assume "rects ! i \<in> set (pruneContainedRects rects)"
  then obtain k where k: "k < length rects" "rects ! k = rects ! i"
      "\<forall>m<length rects. m \<noteq> k \<longrightarrow> \<not> containsRect (rects ! m) (rects ! i)"
    by (auto simp: prune_mem)
  show False
  proof (cases "k = i")
    case True
    with k(3) assms show False using containsRect_refl by auto
  next
    case False
    with k(3) assms(1) show False using containsRect_refl by auto
  qed
qed

theorem prune_drops_duplicates_witness:
  "\<lparr>rect_left = 0, rect_top = 0, rect_right = 10, rect_bottom = 10\<rparr>
     \<notin> set (pruneContainedRects
         [\<lparr>rect_left = 0, rect_top = 0, rect_right = 10, rect_bottom = 10\<rparr>,
          \<lparr>rect_left = 20, rect_top = 0, rect_right = 30, rect_bottom = 10\<rparr>,
          \<lparr>rect_left = 0, rect_top = 0, rect_right = 10, rect_bottom = 10\<rparr>])"
  using prune_drops_duplicates[of 0
         "[\<lparr>rect_left = 0, rect_top = 0, rect_right = 10, rect_bottom = 10\<rparr>,
          \<lparr>rect_left = 20, rect_top = 0, rect_right = 30, rect_bottom = 10\<rparr>,
          \<lparr>rect_left = 0, rect_top = 0, rect_right = 10, rect_bottom = 10\<rparr>]" 2]
  by simp

text \<open>
  Claim C6. Without an intersection of positive area \<open>subtractRect\<close> returns the free
  rectangle alone. Otherwise it returns at most four rectangles. Each of them is one of the
  top, bottom, left and right remainders and is more than one unit wide and more than one unit
  high; every remainder of that size is returned, so exactly the remainders that are at most
  one unit wide or high are discarded. Every remainder lies inside the free rectangle and off
  the blocker, and every point of the free rectangle that is not in the blocker lies in a
  returned rectangle or in a discarded remainder.
\<close>

theorem subtractRect_spec:
  "(\<not> overlaps freeRect blockerRect \<longrightarrow> subtractRect freeRect blockerRect = [freeRect]) \<and>
   (overlaps freeRect blockerRect \<longrightarrow>
      length (subtractRect freeRect blockerRect) \<le> 4 \<and>
      subtractRect freeRect blockerRect = filter notSliver (remainders freeRect blockerRect) \<and>
      (\<forall>r\<in>set (subtractRect freeRect blockerRect).
         r \<in> set (remainders freeRect blockerRect) \<and>
         rect_right r - rect_left r > 1 \<and> rect_bottom r - rect_top r > 1) \<and>
      (\<forall>s\<in>set (remainders freeRect blockerRect).
         rect_right s - rect_left s > 1 \<and> rect_bottom s - rect_top s > 1 \<longrightarrow>
           s \<in> set (subtractRect freeRect blockerRect)) \<and>
      (\<forall>r\<in>set (remainders freeRect blockerRect).
         containsRect freeRect r \<and> \<not> overlaps r blockerRect) \<and>
      (\<forall>x y. insideRect x y freeRect \<and> \<not> insideRect x y blockerRect \<longrightarrow>
         (\<exists>r\<in>set (subtractRect freeRect blockerRect). insideRect x y r) \<or>
         (\<exists>s\<in>set (remainders freeRect blockerRect).
            (rect_right s - rect_left s \<le> 1 \<or> rect_bottom s - rect_top s \<le> 1) \<and>
            s \<notin> set (subtractRect freeRect blockerRect) \<and>
            insideRect x y s)))"
proof (intro conjI impI allI)
  show "subtractRect freeRect blockerRect = [freeRect]" if "\<not> overlaps freeRect blockerRect"
    using that by (rule subtractRect_no_overlap)
next
  assume ov: "overlaps freeRect blockerRect"
  show eq: "subtractRect freeRect blockerRect = filter notSliver (remainders freeRect blockerRect)"
    using ov by (rule subtractRect_overlap)
  show "length (subtractRect freeRect blockerRect) \<le> 4"
    unfolding eq using length_remainders[of freeRect blockerRect] length_filter_le[of notSliver "remainders freeRect blockerRect"]
    by linarith
  show "\<forall>r\<in>set (subtractRect freeRect blockerRect).
         r \<in> set (remainders freeRect blockerRect) \<and>
         rect_right r - rect_left r > 1 \<and> rect_bottom r - rect_top r > 1"
    unfolding eq by (simp add: notSliver_def)
  show "\<forall>s\<in>set (remainders freeRect blockerRect).
         rect_right s - rect_left s > 1 \<and> rect_bottom s - rect_top s > 1 \<longrightarrow>
           s \<in> set (subtractRect freeRect blockerRect)"
    unfolding eq by (simp add: notSliver_def)
  show "\<forall>r\<in>set (remainders freeRect blockerRect).
         containsRect freeRect r \<and> \<not> overlaps r blockerRect"
    using remainders_sub[OF ov] remainders_disjoint[OF ov] by blast
  fix x y
  assume p: "insideRect x y freeRect \<and> \<not> insideRect x y blockerRect"
  then obtain r where r: "r \<in> set (remainders freeRect blockerRect)" "insideRect x y r"
    using remainders_cover[OF ov] by blast
  show "(\<exists>r\<in>set (subtractRect freeRect blockerRect). insideRect x y r) \<or>
         (\<exists>s\<in>set (remainders freeRect blockerRect).
            (rect_right s - rect_left s \<le> 1 \<or> rect_bottom s - rect_top s \<le> 1) \<and>
            s \<notin> set (subtractRect freeRect blockerRect) \<and>
            insideRect x y s)"
  proof (cases "notSliver r")
    case True
    with r show ?thesis unfolding eq by auto
  next
    case False
    then have "rect_right r - rect_left r \<le> 1 \<or> rect_bottom r - rect_top r \<le> 1"
      by (auto simp: notSliver_def)
    moreover from False have "r \<notin> set (subtractRect freeRect blockerRect)"
      unfolding eq by simp
    ultimately show ?thesis using r by blast
  qed
qed

theorem subtractRect_spec_witness:
  "overlaps \<lparr>rect_left = 0, rect_top = 0, rect_right = 100, rect_bottom = 100\<rparr>
            \<lparr>rect_left = 30, rect_top = 1 / 2, rect_right = 70, rect_bottom = 70\<rparr> \<and>
   remainders \<lparr>rect_left = 0, rect_top = 0, rect_right = 100, rect_bottom = 100\<rparr>
            \<lparr>rect_left = 30, rect_top = 1 / 2, rect_right = 70, rect_bottom = 70\<rparr>
     = [\<lparr>rect_left = 0, rect_top = 0, rect_right = 100, rect_bottom = 1 / 2\<rparr>,
        \<lparr>rect_left = 0, rect_top = 70, rect_right = 100, rect_bottom = 100\<rparr>,
        \<lparr>rect_left = 0, rect_top = 1 / 2, rect_right = 30, rect_bottom = 70\<rparr>,
        \<lparr>rect_left = 70, rect_top = 1 / 2, rect_right = 100, rect_bottom = 70\<rparr>] \<and>
   subtractRect \<lparr>rect_left = 0, rect_top = 0, rect_right = 100, rect_bottom = 100\<rparr>
            \<lparr>rect_left = 30, rect_top = 1 / 2, rect_right = 70, rect_bottom = 70\<rparr>
     = [\<lparr>rect_left = 0, rect_top = 70, rect_right = 100, rect_bottom = 100\<rparr>,
        \<lparr>rect_left = 0, rect_top = 1 / 2, rect_right = 30, rect_bottom = 70\<rparr>,
        \<lparr>rect_left = 70, rect_top = 1 / 2, rect_right = 100, rect_bottom = 70\<rparr>] \<and>
   insideRect 10 50 \<lparr>rect_left = 0, rect_top = 0, rect_right = 100, rect_bottom = 100\<rparr> \<and>
   \<not> insideRect 10 50 \<lparr>rect_left = 30, rect_top = 1 / 2, rect_right = 70, rect_bottom = 70\<rparr> \<and>
   list_ex (insideRect 10 50)
     (subtractRect \<lparr>rect_left = 0, rect_top = 0, rect_right = 100, rect_bottom = 100\<rparr>
        \<lparr>rect_left = 30, rect_top = 1 / 2, rect_right = 70, rect_bottom = 70\<rparr>) \<and>
   insideRect 50 (1 / 4) \<lparr>rect_left = 0, rect_top = 0, rect_right = 100, rect_bottom = 100\<rparr> \<and>
   \<not> insideRect 50 (1 / 4) \<lparr>rect_left = 30, rect_top = 1 / 2, rect_right = 70, rect_bottom = 70\<rparr> \<and>
   \<not> list_ex (insideRect 50 (1 / 4))
     (subtractRect \<lparr>rect_left = 0, rect_top = 0, rect_right = 100, rect_bottom = 100\<rparr>
        \<lparr>rect_left = 30, rect_top = 1 / 2, rect_right = 70, rect_bottom = 70\<rparr>) \<and>
   \<not> overlaps \<lparr>rect_left = 0, rect_top = 0, rect_right = 100, rect_bottom = 100\<rparr>
            \<lparr>rect_left = 100, rect_top = 0, rect_right = 170, rect_bottom = 70\<rparr> \<and>
   subtractRect \<lparr>rect_left = 0, rect_top = 0, rect_right = 100, rect_bottom = 100\<rparr>
            \<lparr>rect_left = 100, rect_top = 0, rect_right = 170, rect_bottom = 70\<rparr>
     = [\<lparr>rect_left = 0, rect_top = 0, rect_right = 100, rect_bottom = 100\<rparr>]"
  using subtractRect_spec[of "\<lparr>rect_left = 0, rect_top = 0, rect_right = 100, rect_bottom = 100\<rparr>"
            "\<lparr>rect_left = 30, rect_top = 1 / 2, rect_right = 70, rect_bottom = 70\<rparr>"]
        subtractRect_spec[of "\<lparr>rect_left = 0, rect_top = 0, rect_right = 100, rect_bottom = 100\<rparr>"
            "\<lparr>rect_left = 100, rect_top = 0, rect_right = 170, rect_bottom = 70\<rparr>"]
  by (simp add: overlaps_def insideRect_def remainders_def intersection_def notSliver_def Let_def)

text \<open>
  Claim C9. \<open>arrangeObjectOnCanvas\<close> changes nothing but the position of the object it is
  given: the canvas, the history and the flags stay as they are, every other object of the
  store is unchanged, and the object itself keeps its name, footprint and angle. This holds on all
  paths (placed, fallback, invalid safe area, missing canvas or object).
\<close>

theorem arrange_frame:
  "canvas (fst (arrangeObjectOnCanvas st objToArrange)) = canvas st \<and>
   undoStack (fst (arrangeObjectOnCanvas st objToArrange)) = undoStack st \<and>
   redoStack (fst (arrangeObjectOnCanvas st objToArrange)) = redoStack st \<and>
   isRestoring (fst (arrangeObjectOnCanvas st objToArrange)) = isRestoring st \<and>
   saveStateTimeout (fst (arrangeObjectOnCanvas st objToArrange)) = saveStateTimeout st \<and>
   name (heap (fst (arrangeObjectOnCanvas st objToArrange)) r) = name (heap st r) \<and>
   scaledWidth (heap (fst (arrangeObjectOnCanvas st objToArrange)) r) = scaledWidth (heap st r) \<and>
   scaledHeight (heap (fst (arrangeObjectOnCanvas st objToArrange)) r) = scaledHeight (heap st r) \<and>
   angle (heap (fst (arrangeObjectOnCanvas st objToArrange)) r) = angle (heap st r) \<and>
   (objToArrange \<noteq> Some r \<longrightarrow>
      heap (fst (arrangeObjectOnCanvas st objToArrange)) r = heap st r)"
  by (simp add: arrangeObjectOnCanvas_def Let_def setCentre_def split: option.splits)

lemma example_arranged:
  "arrangeObjectOnCanvas exampleApp (Some 2) =
     (exampleApp\<lparr> heap := exampleHeap(2 := setCentre (exampleHeap 2) 229 266) \<rparr>, True)"
proof -
  have "find (fits (scaledWidth (heap exampleApp 2)) (scaledHeight (heap exampleApp 2)))
       (sortRects (computeFreeSpace (safeRectOf exampleCanvas)
          (map (\<lambda>b. getBoundingRect (heap exampleApp b))
             (blockersOf exampleCanvas (heap exampleApp) 2))))
     = Some \<lparr>rect_left = 79, rect_top = 191, rect_right = 2401, rect_bottom = 1669\<rparr>"
    unfolding example_heap example_free
    by (simp add: sortRects_def fits_def exampleHeap_def)
  from arrange_found[OF example_canvas example_safe_valid this] show ?thesis
    by (simp add: example_heap exampleHeap_def)
qed

theorem arrange_frame_witness:
  "Some 2 \<noteq> Some (1::nat) \<and>
   heap (fst (arrangeObjectOnCanvas exampleApp (Some 2))) 1 = exampleHeap 1 \<and>
   heap (fst (arrangeObjectOnCanvas exampleApp (Some 2))) 2 \<noteq> exampleHeap 2"
  using arrange_frame[of exampleApp "Some 2" 1]
  by (simp add: example_heap example_arranged exampleHeap_def setCentre_def)

section \<open>Properties of the history\<close>

lemma saveStateImmediate_guard:
  "isRestoring st \<or> canvas st = None \<Longrightarrow> saveStateImmediate stringify st = st"
  by (auto simp: saveStateImmediate_def split: option.splits)

lemma saveStateImmediate_same:
  assumes "canvas st = Some c" "undoStack st \<noteq> []"
    "last (undoStack st) = snapshotOf stringify (c, heap st)"
  shows "saveStateImmediate stringify st = st"
  using assms by (simp add: saveStateImmediate_def snapshotOf_def Let_def)

lemma saveStateImmediate_push:
  assumes "canvas st = Some c" "\<not> isRestoring st"
    "undoStack st = [] \<or> last (undoStack st) \<noteq> snapshotOf stringify (c, heap st)"
  shows "saveStateImmediate stringify st =
     st\<lparr> undoStack :=
           (if length (undoStack st) \<ge> MAX_HISTORY
            then tl (undoStack st @ [snapshotOf stringify (c, heap st)])
            else undoStack st @ [snapshotOf stringify (c, heap st)]),
         redoStack := [] \<rparr>"
  using assms by (auto simp: saveStateImmediate_def snapshotOf_def Let_def)

lemma lastN_snoc_step:
  assumes "length xs \<le> n" "0 < n"
  shows "(if length xs \<ge> n then tl (xs @ [s]) else xs @ [s]) = lastN n (xs @ [s])"
  using assms by (cases xs) (auto simp: lastN_def drop_Cons')

lemma lastN_lastN_snoc:
  assumes "0 < n"
  shows "lastN n (lastN n xs @ [s]) = lastN n (xs @ [s])"
proof (cases "length xs \<le> n")
  case True
  then show ?thesis by (simp add: lastN_def)
next
  case False
  then have "Suc (length xs) - n = Suc (length xs - n)" by simp
  with False assms show ?thesis by (simp add: lastN_def)
qed

lemma length_lastN: "length (lastN n xs) \<le> n"
  by (simp add: lastN_def)

lemma last_lastN: "0 < n \<Longrightarrow> xs \<noteq> [] \<Longrightarrow> last (lastN n xs) = last xs"
  by (simp add: lastN_def)

lemma captureAll_snoc:
  "captureAll stringify st (scenes @ [scene]) =
     saveStateImmediate stringify
       ((captureAll stringify st scenes)\<lparr> canvas := Some (fst scene), heap := snd scene \<rparr>)"
  by (simp add: captureAll_def)

lemma saveStateImmediate_isRestoring:
  "isRestoring (saveStateImmediate stringify st) = isRestoring st"
  by (auto simp: saveStateImmediate_def Let_def split: option.splits)

lemma captureAll_isRestoring: "isRestoring (captureAll stringify st scenes) = isRestoring st"
  by (induction scenes rule: rev_induct) (simp_all add: captureAll_def saveStateImmediate_isRestoring)

lemma captureAll_undoStack:
  assumes "\<not> isRestoring st" "length (undoStack st) \<le> MAX_HISTORY"
    "distinct_adj (undoStack st @ map (snapshotOf stringify) scenes)"
  shows "undoStack (captureAll stringify st scenes) =
     lastN MAX_HISTORY (undoStack st @ map (snapshotOf stringify) scenes)"
  using assms(3)
proof (induction scenes rule: rev_induct)
  case Nil
  with assms(2) show ?case by (simp add: captureAll_def lastN_def)
next
  case (snoc scene scenes)
  let ?prev = "captureAll stringify st scenes"
  let ?st = "?prev\<lparr> canvas := Some (fst scene), heap := snd scene \<rparr>"
  let ?all = "undoStack st @ map (snapshotOf stringify) scenes"
  have M: "0 < MAX_HISTORY" by (simp add: MAX_HISTORY_def)
  from snoc.prems have da: "distinct_adj ?all"
    and ne: "?all \<noteq> [] \<longrightarrow> last ?all \<noteq> snapshotOf stringify scene"
    by (auto simp: distinct_adj_append_iff simp del: append_assoc simp add: append_assoc[symmetric])
  have IH: "undoStack ?prev = lastN MAX_HISTORY ?all" using snoc.IH da by simp
  have c: "canvas ?st = Some (fst scene)" and nr: "\<not> isRestoring ?st"
    using assms(1) by (simp_all add: captureAll_isRestoring)
  have dif: "undoStack ?st = [] \<or> last (undoStack ?st) \<noteq> snapshotOf stringify (fst scene, heap ?st)"
  proof (cases "?all = []")
    case True
    then have "undoStack ?st = []" using IH by (simp add: lastN_def)
    then show ?thesis by simp
  next
    case False
    then have "last (undoStack ?st) = last ?all"
      using IH M last_lastN[of MAX_HISTORY ?all] by simp
    with ne False show ?thesis by simp
  qed
  have "undoStack (captureAll stringify st (scenes @ [scene])) =
      (if length (undoStack ?st) \<ge> MAX_HISTORY
            then tl (undoStack ?st @ [snapshotOf stringify scene])
            else undoStack ?st @ [snapshotOf stringify scene])"
    unfolding captureAll_snoc saveStateImmediate_push[OF c nr dif] by simp
  also have "\<dots> = lastN MAX_HISTORY (undoStack ?st @ [snapshotOf stringify scene])"
    by (rule lastN_snoc_step) (simp_all add: IH length_lastN M)
  also have "\<dots> = lastN MAX_HISTORY (?all @ [snapshotOf stringify scene])"
    using M by (simp add: IH lastN_lastN_snoc)
  finally show ?case by simp
qed

lemma saveState_restoring: "isRestoring st \<Longrightarrow> saveState st = st"
  by (simp add: saveState_def)

lemma bringBleed_restoring: "isRestoring st \<Longrightarrow> bringBleedObjectsToFront st = st"
  by (simp add: bringBleedObjectsToFront_def)

lemma canvas_add_restoring:
  "isRestoring st \<Longrightarrow> canvas st = Some c \<Longrightarrow>
     canvas_add st r = st\<lparr> canvas := Some (c\<lparr> objects := objects c @ [r] \<rparr>) \<rparr>"
  by (simp add: canvas_add_def saveState_def bringBleedObjectsToFront_def)

lemma canvas_remove_restoring:
  "isRestoring st \<Longrightarrow> canvas st = Some c \<Longrightarrow>
     canvas_remove st r = st\<lparr> canvas := Some (c\<lparr> objects := remove1 r (objects c) \<rparr>) \<rparr>"
  by (simp add: canvas_remove_def saveState_def remove1_idem)

lemma foldl_canvas_remove_restoring:
  "isRestoring st \<Longrightarrow> canvas st = Some c \<Longrightarrow>
     foldl canvas_remove st rs =
       st\<lparr> canvas := Some (c\<lparr> objects := foldl (\<lambda>l r. remove1 r l) (objects c) rs \<rparr>) \<rparr>"
proof (induction rs arbitrary: st c)
  case Nil
  then show ?case by simp
next
  case (Cons r rs)
  let ?st = "st\<lparr> canvas := Some (c\<lparr> objects := remove1 r (objects c) \<rparr>) \<rparr>"
  have "foldl canvas_remove ?st rs =
     ?st\<lparr> canvas := Some ((c\<lparr> objects := remove1 r (objects c) \<rparr>)
        \<lparr> objects := foldl (\<lambda>l r. remove1 r l) (objects (c\<lparr> objects := remove1 r (objects c) \<rparr>)) rs \<rparr>) \<rparr>"
    by (rule Cons.IH) (simp_all add: Cons.prems)
  then show ?case
    by (simp add: canvas_remove_restoring[OF Cons.prems])
qed

lemma foldl_remove1_Cons:
  "x \<notin> set ys \<Longrightarrow> foldl (\<lambda>l r. remove1 r l) (x # xs) ys = x # foldl (\<lambda>l r. remove1 r l) xs ys"
  by (induction ys arbitrary: xs) auto

lemma foldl_remove1_filter:
  "foldl (\<lambda>l r. remove1 r l) xs (filter P xs) = filter (\<lambda>x. \<not> P x) xs"
  by (induction xs) (auto simp: foldl_remove1_Cons)

lemma fold_max_ge: "a \<le> fold max xs (a::nat)"
proof (induction xs arbitrary: a)
  case Nil
  show ?case by simp
next
  case (Cons x xs)
  have "a \<le> max x a" by simp
  also have "\<dots> \<le> fold max xs (max x a)" by (rule Cons.IH)
  finally show ?case by simp
qed

lemma fold_max_mem: "x \<in> set xs \<Longrightarrow> x \<le> fold max xs (a::nat)"
proof (induction xs arbitrary: a)
  case Nil
  then show ?case by simp
next
  case (Cons y ys)
  show ?case
  proof (cases "x = y")
    case True
    have "x \<le> max y a" using True by simp
    also have "\<dots> \<le> fold max ys (max y a)" by (rule fold_max_ge)
    finally show ?thesis by simp
  next
    case False
    with Cons.prems have "x \<in> set ys" by simp
    from Cons.IH[OF this] show ?thesis by simp
  qed
qed

lemma newRef_fresh: "newRef objs \<notin> set objs"
proof
  assume "newRef objs \<in> set objs"
  from fold_max_mem[OF this, of 0] show False by (simp add: newRef_def)
qed

lemma canvas_add_new_restoring:
  "isRestoring st \<Longrightarrow> canvas st = Some c \<Longrightarrow>
     canvas_add_new st ob =
       st\<lparr> heap := (heap st)(newRef (objects c) := ob),
           canvas := Some (c\<lparr> objects := objects c @ [newRef (objects c)] \<rparr>) \<rparr>"
  by (simp add: canvas_add_new_def Let_def canvas_add_restoring)

lemma foldl_canvas_add_new:
  assumes "isRestoring st" "canvas st = Some c"
  shows "\<exists>news h'. foldl canvas_add_new st obs =
            st\<lparr> heap := h', canvas := Some (c\<lparr> objects := objects c @ news \<rparr>) \<rparr> \<and>
          map h' news = obs \<and> (\<forall>r\<in>set (objects c). h' r = heap st r)"
  using assms
proof (induction obs arbitrary: st c)
  case Nil
  have "st = st\<lparr> heap := heap st, canvas := Some (c\<lparr> objects := objects c @ [] \<rparr>) \<rparr>"
    using Nil by simp
  then show ?case by (intro exI[of _ "[]"] exI[of _ "heap st"]) simp
next
  case (Cons ob obs)
  let ?n = "newRef (objects c)"
  let ?c1 = "c\<lparr> objects := objects c @ [?n] \<rparr>"
  let ?st1 = "st\<lparr> heap := (heap st)(?n := ob), canvas := Some ?c1 \<rparr>"
  have s1: "canvas_add_new st ob = ?st1" by (rule canvas_add_new_restoring[OF Cons.prems])
  have "isRestoring ?st1" "canvas ?st1 = Some ?c1" using Cons.prems by simp_all
  from Cons.IH[OF this] obtain news h' where
    eq: "foldl canvas_add_new ?st1 obs = ?st1\<lparr> heap := h', canvas := Some (?c1\<lparr> objects := objects ?c1 @ news \<rparr>) \<rparr>"
    and mp: "map h' news = obs" and ag: "\<forall>r\<in>set (objects ?c1). h' r = heap ?st1 r"
    by blast
  have n: "h' ?n = ob" using ag by simp
  have old: "\<forall>r\<in>set (objects c). h' r = heap st r"
    using ag newRef_fresh[of "objects c"] by auto
  show ?case
    apply (rule exI[of _ "?n # news"], rule exI[of _ h'])
    using eq mp n old by (simp add: s1)
qed

lemma loadObjects_spec:
  assumes "isRestoring st" "canvas st = Some c"
  shows "\<exists>news h'. loadObjects st obs = st\<lparr> heap := h', canvas := Some (c\<lparr> objects := news \<rparr>) \<rparr> \<and>
          map h' news = obs"
proof -
  let ?st0 = "st\<lparr> canvas := Some (c\<lparr> objects := [] \<rparr>) \<rparr>"
  have "isRestoring ?st0" "canvas ?st0 = Some (c\<lparr> objects := [] \<rparr>)" using assms by simp_all
  from foldl_canvas_add_new[OF this, of obs] show ?thesis
    by (auto simp: loadObjects_def assms)
qed

lemma createBleedArea_spec:
  assumes "isRestoring st" "canvas st = Some c"
  shows "\<exists>c' h'. createBleedArea st = st\<lparr> heap := h', canvas := Some c' \<rparr> \<and>
          map h' (getUserObjects c' h') = map (heap st) (getUserObjects c (heap st))"
proof -
  let ?keep = "filter (\<lambda>x. \<not> isBleedObject (heap st x)) (objects c)"
  let ?c1 = "c\<lparr> objects := ?keep \<rparr>"
  let ?st1 = "st\<lparr> canvas := Some ?c1 \<rparr>"
  let ?rects = "[fabricRect ''bleedOverlay'' 0 0 (width c / zoom c) BLEED_PIXELS,
                  fabricRect ''bleedOverlay'' 0 (height c / zoom c - BLEED_PIXELS) (width c / zoom c) BLEED_PIXELS,
                  fabricRect ''bleedOverlay'' 0 BLEED_PIXELS BLEED_PIXELS (height c / zoom c - BLEED_PIXELS * 2),
                  fabricRect ''bleedOverlay'' (width c / zoom c - BLEED_PIXELS) BLEED_PIXELS BLEED_PIXELS
                    (height c / zoom c - BLEED_PIXELS * 2),
                  fabricRect ''bleedArea'' BLEED_PIXELS BLEED_PIXELS (width c / zoom c - BLEED_PIXELS * 2)
                    (height c / zoom c - BLEED_PIXELS * 2)]"
  have rm: "foldl canvas_remove st (filter (\<lambda>obj. isBleedObject (heap st obj)) (objects c)) = ?st1"
    by (simp add: foldl_canvas_remove_restoring[OF assms] foldl_remove1_filter)
  have "isRestoring ?st1" "canvas ?st1 = Some ?c1" using assms by simp_all
  from foldl_canvas_add_new[OF this, of ?rects] obtain news h' where
    eq: "foldl canvas_add_new ?st1 ?rects = ?st1\<lparr> heap := h', canvas := Some (?c1\<lparr> objects := objects ?c1 @ news \<rparr>) \<rparr>"
    and mp: "map h' news = ?rects" and ag: "\<forall>r\<in>set (objects ?c1). h' r = heap ?st1 r"
    by (elim exE conjE) (rule that; assumption)
  have bleed: "\<forall>r\<in>set news. isBleedObject (h' r)"
  proof
    fix r assume "r \<in> set news"
    then have "h' r \<in> set (map h' news)" by simp
    then show "isBleedObject (h' r)"
      unfolding mp by (auto simp: isBleedObject_def fabricRect_def)
  qed
  have keep: "\<forall>r\<in>set ?keep. h' r = heap st r" using ag by simp
  let ?c' = "?c1\<lparr> objects := objects ?c1 @ news \<rparr>"
  have res: "createBleedArea st = st\<lparr> heap := h', canvas := Some ?c' \<rparr>"
    using assms eq rm by (simp add: createBleedArea_def Let_def bringBleed_restoring)
  have f1: "filter (\<lambda>r. \<not> isBleedObject (h' r)) news = []"
    using bleed by (simp add: filter_empty_conv)
  have f2: "filter (\<lambda>r. \<not> isBleedObject (h' r)) ?keep = ?keep"
    using keep by (intro filter_True) simp
  have "getUserObjects ?c' h' = ?keep"
    by (simp add: getUserObjects_def f1 f2 del: filter_filter)
  moreover have "map h' ?keep = map (heap st) ?keep"
    using keep by simp
  ultimately have "map h' (getUserObjects ?c' h') = map (heap st) (getUserObjects c (heap st))"
    by (simp add: getUserObjects_def)
  with res show ?thesis by blast
qed

lemma restoreState_fulfilled:
  assumes "canvas st = Some c" "loadFromJSON state = Some objs"
  shows "\<exists>c' h'. restoreState loadFromJSON st state =
            Inr (st\<lparr> heap := h', canvas := Some c', isRestoring := False \<rparr>) \<and>
          map h' (getUserObjects c' h') = filter (\<lambda>obj. \<not> isBleedObject obj) objs"
proof -
  let ?st1 = "st\<lparr> isRestoring := True \<rparr>"
  have a: "isRestoring ?st1" "canvas ?st1 = Some c" using assms by simp_all
  from loadObjects_spec[OF a, of objs] obtain news h1 where
    l: "loadObjects ?st1 objs = ?st1\<lparr> heap := h1, canvas := Some (c\<lparr> objects := news \<rparr>) \<rparr>"
    and m: "map h1 news = objs" by blast
  let ?st2 = "?st1\<lparr> heap := h1, canvas := Some (c\<lparr> objects := news \<rparr>) \<rparr>"
  have b: "isRestoring ?st2" "canvas ?st2 = Some (c\<lparr> objects := news \<rparr>)" by simp_all
  from createBleedArea_spec[OF b] obtain c' h' where
    cb: "createBleedArea ?st2 = ?st2\<lparr> heap := h', canvas := Some c' \<rparr>"
    and u: "map h' (getUserObjects c' h') = map (heap ?st2) (getUserObjects (c\<lparr> objects := news \<rparr>) (heap ?st2))"
    by blast
  have "map h1 (filter (\<lambda>r. \<not> isBleedObject (h1 r)) news) = filter (\<lambda>obj. \<not> isBleedObject obj) (map h1 news)"
    by (simp add: filter_map comp_def)
  then have "map h' (getUserObjects c' h') = filter (\<lambda>obj. \<not> isBleedObject obj) objs"
    using u m by (simp add: getUserObjects_def)
  moreover have "restoreState loadFromJSON st state =
            Inr (st\<lparr> heap := h', canvas := Some c', isRestoring := False \<rparr>)"
    using assms l cb by (simp add: restoreState_def Let_def)
  ultimately show ?thesis by blast
qed

lemma restoreState_rejected:
  assumes "canvas st = Some c" "loadFromJSON state = None"
  shows "restoreState loadFromJSON st state = Inr (st\<lparr> isRestoring := True \<rparr>)"
  using assms by (simp add: restoreState_def Let_def)

lemma restoreState_stacks:
  assumes "restoreState loadFromJSON st state = Inr st'"
  shows "undoStack st' = undoStack st \<and> redoStack st' = redoStack st"
proof (cases "canvas st")
  case None
  with assms show ?thesis by (simp add: restoreState_def Let_def)
next
  case (Some c)
  show ?thesis
  proof (cases "loadFromJSON state")
    case None
    with assms Some show ?thesis by (auto simp: restoreState_rejected)
  next
    case (Some objs)
    from restoreState_fulfilled[where loadFromJSON = loadFromJSON and state = state,
        OF \<open>canvas st = Some c\<close> Some] assms
    show ?thesis by auto
  qed
qed

text \<open>
  Claim C2. \<open>restoreState\<close> sets \<open>isRestoring\<close> first. When the promise of
  \<open>loadFromJSON\<close> rejects, no handler runs and the flag stays set: here the restore of a
  snapshot that cannot be deserialised leaves the example state with \<open>isRestoring\<close> true.
\<close>

theorem restoreState_rejected_latches:
  "restoreState rejectingLoad exampleApp ''not json'' = Inr (exampleApp\<lparr> isRestoring := True \<rparr>)"
  by (simp add: restoreState_def rejectingLoad_def exampleApp_def)

text \<open>
  Claim C7, as stated, fails while a restore is under way: the serialised scene differs from
  the top of the undo stack, yet \<open>saveStateImmediate\<close> pushes nothing and leaves the redo
  stack as it is.
\<close>

theorem saveStateImmediate_restoring_counterexample:
  "last (undoStack exampleRestoring)
      \<noteq> snapshotOf exampleStringify (exampleCanvas, heap exampleRestoring) \<and>
   canvas exampleRestoring = Some exampleCanvas \<and>
   undoStack (saveStateImmediate exampleStringify exampleRestoring) = [''x''] \<and>
   redoStack (saveStateImmediate exampleStringify exampleRestoring) = [''y'']"
  by (simp add: exampleRestoring_def exampleApp_def saveStateImmediate_def snapshotOf_def
      exampleStringify_def getUserObjects_def exampleCanvas_def exampleHeap_def isBleedObject_def)

text \<open>
  Claim C7, amended. While \<open>isRestoring\<close> is set or there is no canvas,
  \<open>saveStateImmediate\<close> does nothing. Otherwise it does nothing (the redo stack is kept)
  when the serialised user objects equal the top of the undo stack, and else it pushes the
  snapshot, drops the oldest entry when the stack would exceed \<open>MAX_HISTORY\<close>, and clears
  the redo stack. A run of captures, each different from the one before, started from an undo
  stack of at most \<open>MAX_HISTORY\<close> entries, leaves the newest \<open>MAX_HISTORY\<close> entries.
\<close>

theorem saveStateImmediate_capture:
  "(isRestoring st \<or> canvas st = None \<longrightarrow> saveStateImmediate stringify st = st) \<and>
   (\<not> isRestoring st \<and> canvas st = Some c \<and> undoStack st \<noteq> [] \<and>
      last (undoStack st) = snapshotOf stringify (c, heap st) \<longrightarrow>
        saveStateImmediate stringify st = st) \<and>
   (\<not> isRestoring st \<and> canvas st = Some c \<and>
      (undoStack st = [] \<or> last (undoStack st) \<noteq> snapshotOf stringify (c, heap st)) \<longrightarrow>
        saveStateImmediate stringify st =
          st\<lparr> undoStack :=
                (if length (undoStack st) \<ge> MAX_HISTORY
                 then tl (undoStack st @ [snapshotOf stringify (c, heap st)])
                 else undoStack st @ [snapshotOf stringify (c, heap st)]),
              redoStack := [] \<rparr>) \<and>
   (\<not> isRestoring st \<and> length (undoStack st) \<le> MAX_HISTORY \<and>
      distinct_adj (undoStack st @ map (snapshotOf stringify) scenes) \<longrightarrow>
        undoStack (captureAll stringify st scenes) =
          lastN MAX_HISTORY (undoStack st @ map (snapshotOf stringify) scenes))"
  using saveStateImmediate_guard[of st stringify] saveStateImmediate_same[of st c stringify]
    saveStateImmediate_push[of st c stringify] captureAll_undoStack[of st stringify scenes]
  by blast

lemma example_snapshot: "snapshotOf exampleStringify (exampleScene k) = concat (replicate k ''a;'')"
proof -
  have "concat (map (\<lambda>x. ''a;'') xs) = concat (replicate (length xs) ''a;'')" for xs :: "nat list"
    by (induction xs) simp_all
  from this[of "[0..<k]"] show ?thesis
    by (simp add: snapshotOf_def exampleScene_def exampleStringify_def getUserObjects_def
       isBleedObject_def fabricRect_def comp_def)
qed

lemma example_snapshots_distinct_adj:
  "distinct_adj (map (snapshotOf exampleStringify) (map exampleScene [i..<j]))"
proof -
  have "concat (replicate k ''a;'') \<noteq> concat (replicate (Suc k) ''a;'')" for k
  proof
    assume "concat (replicate k ''a;'') = concat (replicate (Suc k) ''a;'')"
    then have "length (concat (replicate k ''a;'')) = length (concat (replicate (Suc k) ''a;''))"
      by (rule arg_cong)
    then show False by (simp add: length_concat sum_list_replicate)
  qed
  then show ?thesis
    by (simp add: distinct_adj_conv_nth example_snapshot)
qed

theorem saveStateImmediate_capture_witness:
  "\<not> isRestoring exampleApp \<and> length (undoStack exampleApp) \<le> MAX_HISTORY \<and>
   length exampleScenes = 25 \<and>
   undoStack (captureAll exampleStringify exampleApp exampleScenes) =
     map (snapshotOf exampleStringify) (drop 5 exampleScenes) \<and>
   length (undoStack (captureAll exampleStringify exampleApp exampleScenes)) = 20"
proof -
  have u: "undoStack exampleApp = []" and r: "\<not> isRestoring exampleApp"
    by (simp_all add: exampleApp_def)
  have d: "distinct_adj (undoStack exampleApp @ map (snapshotOf exampleStringify) exampleScenes)"
    unfolding u exampleScenes_def using example_snapshots_distinct_adj by simp
  have l: "length exampleScenes = 25" by (simp add: exampleScenes_def)
  show ?thesis
    using saveStateImmediate_capture[of exampleApp exampleStringify exampleCanvas exampleScenes] d r l
    by (simp add: u lastN_def MAX_HISTORY_def drop_map)
qed

lemma undo_noop: "length (undoStack st) \<le> 1 \<Longrightarrow> undo loadFromJSON st = Inr st"
  by (simp add: undo_def)

lemma restoreState_Inr:
  assumes "canvas st = Some c"
  shows "\<exists>st'. restoreState loadFromJSON st state = Inr st'"
  using assms by (simp add: restoreState_def Let_def split: option.splits)

lemma restoreState_scene:
  assumes "restoreState loadFromJSON st state = Inr st'" "canvas st = Some c"
    "loadFromJSON state = Some objs"
  shows "sceneOf st' = Some (filter (\<lambda>obj. \<not> isBleedObject obj) objs) \<and> \<not> isRestoring st'"
  using restoreState_fulfilled[where loadFromJSON = loadFromJSON and state = state, OF assms(2,3)]
    assms(1)
  by (auto simp: sceneOf_def)

lemma restoreState_canvas:
  assumes "restoreState loadFromJSON st state = Inr st'" "canvas st = Some c"
  shows "\<exists>c'. canvas st' = Some c'"
proof (cases "loadFromJSON state")
  case None
  with assms show ?thesis by (auto simp: restoreState_rejected)
next
  case (Some objs)
  from restoreState_fulfilled[where loadFromJSON = loadFromJSON and state = state, OF assms(2) Some]
    assms(1)
  show ?thesis by auto
qed

lemma capture_stack:
  assumes "canvas st = Some c" "\<not> isRestoring st" "undoStack st \<noteq> []"
    "last (undoStack st) \<noteq> snapshotOf stringify (c, heap st)"
  shows "length (undoStack (saveStateImmediate stringify st)) > 1"
    and "last (undoStack (saveStateImmediate stringify st)) = snapshotOf stringify (c, heap st)"
    and "last (butlast (undoStack (saveStateImmediate stringify st))) = last (undoStack st)"
    and "redoStack (saveStateImmediate stringify st) = []"
    and "canvas (saveStateImmediate stringify st) = Some c"
proof -
  let ?s = "snapshotOf stringify (c, heap st)"
  have eq: "saveStateImmediate stringify st =
     st\<lparr> undoStack :=
           (if length (undoStack st) \<ge> MAX_HISTORY
            then tl (undoStack st @ [?s]) else undoStack st @ [?s]),
         redoStack := [] \<rparr>"
    using assms by (intro saveStateImmediate_push) simp_all
  obtain x xs where us: "undoStack st = x # xs" using assms(3) by (cases "undoStack st") auto
  show "length (undoStack (saveStateImmediate stringify st)) > 1"
    by (auto simp: eq us MAX_HISTORY_def)
  show "last (undoStack (saveStateImmediate stringify st)) = ?s"
    by (simp add: eq us)
  show "last (butlast (undoStack (saveStateImmediate stringify st))) = last (undoStack st)"
    by (cases xs) (simp_all add: eq us butlast_append MAX_HISTORY_def)
  show "redoStack (saveStateImmediate stringify st) = []" by (simp add: eq)
  show "canvas (saveStateImmediate stringify st) = Some c" by (simp add: eq assms(1))
qed

text \<open>
  Claim C8. After one captured change on top of a prior snapshot, \<open>undo\<close> hands exactly
  the prior snapshot to \<open>restoreState\<close>, moves the captured snapshot to the redo stack, and
  (when the deserialiser fulfils) leaves as user objects the objects deserialised from the
  prior snapshot. \<open>redo\<close> right after it hands the captured snapshot to \<open>restoreState\<close>
  and puts the undo stack back as it was after the capture. \<open>undo\<close> on an undo stack of
  at most one entry changes nothing.
\<close>

theorem undo_redo_after_capture:
  assumes "canvas st = Some c" and "\<not> isRestoring st" and "undoStack st \<noteq> []"
    and "last (undoStack st) \<noteq> snapshotOf stringify (c, heap st)"
  shows
   "undo loadFromJSON (saveStateImmediate stringify st) =
      restoreState loadFromJSON
        ((saveStateImmediate stringify st)
           \<lparr> undoStack := butlast (undoStack (saveStateImmediate stringify st)),
             redoStack := [snapshotOf stringify (c, heap st)] \<rparr>)
        (last (undoStack st)) \<and>
    (\<exists>st2. undo loadFromJSON (saveStateImmediate stringify st) = Inr st2) \<and>
    (\<forall>st2. undo loadFromJSON (saveStateImmediate stringify st) = Inr st2 \<longrightarrow>
       undoStack st2 = butlast (undoStack (saveStateImmediate stringify st)) \<and>
       last (undoStack st2) = last (undoStack st) \<and>
       redoStack st2 = [snapshotOf stringify (c, heap st)] \<and>
       (\<forall>objs. loadFromJSON (last (undoStack st)) = Some objs \<longrightarrow>
          sceneOf st2 = Some (filter (\<lambda>obj. \<not> isBleedObject obj) objs)) \<and>
       redo loadFromJSON st2 =
         restoreState loadFromJSON
           (st2\<lparr> redoStack := [], undoStack := undoStack (saveStateImmediate stringify st) \<rparr>)
           (snapshotOf stringify (c, heap st)) \<and>
       (\<exists>st3. redo loadFromJSON st2 = Inr st3) \<and>
       (\<forall>st3. redo loadFromJSON st2 = Inr st3 \<longrightarrow>
          undoStack st3 = undoStack (saveStateImmediate stringify st) \<and>
          redoStack st3 = [] \<and>
          (\<forall>objs. loadFromJSON (snapshotOf stringify (c, heap st)) = Some objs \<longrightarrow>
             sceneOf st3 = Some (filter (\<lambda>obj. \<not> isBleedObject obj) objs)))) \<and>
    (length (undoStack st0) \<le> 1 \<longrightarrow> undo loadFromJSON st0 = Inr st0)"
  (is "?A \<and> ?B \<and> ?C \<and> ?D")
proof -
  let ?st1 = "saveStateImmediate stringify st"
  let ?s1 = "snapshotOf stringify (c, heap st)"
  let ?s0 = "last (undoStack st)"
  let ?stU = "?st1\<lparr> undoStack := butlast (undoStack ?st1), redoStack := [?s1] \<rparr>"
  note cs = capture_stack[OF assms]
  have A: "undo loadFromJSON ?st1 = restoreState loadFromJSON ?stU ?s0"
    using cs(1) by (simp add: undo_def Let_def cs(2,3,4))
  have cU: "canvas ?stU = Some c" by (simp add: cs(5))
  have B: "\<exists>st2. undo loadFromJSON ?st1 = Inr st2"
    unfolding A by (rule restoreState_Inr[OF cU])
  have C: "undoStack st2 = butlast (undoStack ?st1) \<and>
       last (undoStack st2) = ?s0 \<and>
       redoStack st2 = [?s1] \<and>
       (\<forall>objs. loadFromJSON ?s0 = Some objs \<longrightarrow>
          sceneOf st2 = Some (filter (\<lambda>obj. \<not> isBleedObject obj) objs)) \<and>
       redo loadFromJSON st2 =
         restoreState loadFromJSON (st2\<lparr> redoStack := [], undoStack := undoStack ?st1 \<rparr>) ?s1 \<and>
       (\<exists>st3. redo loadFromJSON st2 = Inr st3) \<and>
       (\<forall>st3. redo loadFromJSON st2 = Inr st3 \<longrightarrow>
          undoStack st3 = undoStack ?st1 \<and> redoStack st3 = [] \<and>
          (\<forall>objs. loadFromJSON ?s1 = Some objs \<longrightarrow>
             sceneOf st3 = Some (filter (\<lambda>obj. \<not> isBleedObject obj) objs)))"
    if u: "undo loadFromJSON ?st1 = Inr st2" for st2
  proof -
    from u have r2: "restoreState loadFromJSON ?stU ?s0 = Inr st2" by (simp add: A)
    from restoreState_stacks[OF r2] have
      us2: "undoStack st2 = butlast (undoStack ?st1)" and rs2: "redoStack st2 = [?s1]"
      by simp_all
    have l2: "last (undoStack st2) = ?s0" by (simp add: us2 cs(3))
    have sc2: "\<forall>objs. loadFromJSON ?s0 = Some objs \<longrightarrow>
          sceneOf st2 = Some (filter (\<lambda>obj. \<not> isBleedObject obj) objs)"
      using restoreState_scene[OF r2 cU] by blast
    from restoreState_canvas[OF r2 cU] obtain c2 where c2: "canvas st2 = Some c2" by blast
    let ?stR = "st2\<lparr> redoStack := [], undoStack := undoStack ?st1 \<rparr>"
    have ne: "undoStack ?st1 \<noteq> []" using cs(1) by auto
    have R: "redo loadFromJSON st2 = restoreState loadFromJSON ?stR ?s1"
      using ne by (simp add: redo_def Let_def rs2 us2 cs(2)[symmetric])
    have cR: "canvas ?stR = Some c2" by (simp add: c2)
    have E: "\<exists>st3. redo loadFromJSON st2 = Inr st3"
      unfolding R by (rule restoreState_Inr[OF cR])
    have F: "undoStack st3 = undoStack ?st1 \<and> redoStack st3 = [] \<and>
          (\<forall>objs. loadFromJSON ?s1 = Some objs \<longrightarrow>
             sceneOf st3 = Some (filter (\<lambda>obj. \<not> isBleedObject obj) objs))"
      if "redo loadFromJSON st2 = Inr st3" for st3
    proof -
      from that have r3: "restoreState loadFromJSON ?stR ?s1 = Inr st3" by (simp add: R)
      from restoreState_stacks[OF r3] restoreState_scene[OF r3 cR] show ?thesis by auto
    qed
    have F': "\<forall>st3. redo loadFromJSON st2 = Inr st3 \<longrightarrow>
          undoStack st3 = undoStack ?st1 \<and> redoStack st3 = [] \<and>
          (\<forall>objs. loadFromJSON ?s1 = Some objs \<longrightarrow>
             sceneOf st3 = Some (filter (\<lambda>obj. \<not> isBleedObject obj) objs))"
      by (intro allI impI) (rule F)
    show ?thesis by (intro conjI us2 l2 rs2 sc2 R E F')
  qed
  have C': ?C by (intro allI impI) (rule C)
  have D: ?D using undo_noop[of st0 loadFromJSON] by (intro impI)
  show ?thesis by (intro conjI A B C' D)
qed

lemma example_history_snapshot:
  "snapshotOf exampleStringify (exampleCanvas, heap exampleHistory) = ''first;second;''"
  by (simp add: exampleHistory_def exampleApp_def snapshotOf_def
      exampleStringify_def getUserObjects_def exampleCanvas_def exampleHeap_def isBleedObject_def)

theorem undo_redo_after_capture_witness:
  "canvas exampleHistory = Some exampleCanvas \<and> \<not> isRestoring exampleHistory \<and>
   undoStack exampleHistory = [''x''] \<and>
   snapshotOf exampleStringify (exampleCanvas, heap exampleHistory) = ''first;second;'' \<and>
   undo exampleLoad (saveStateImmediate exampleStringify exampleHistory) =
     restoreState exampleLoad
       (exampleHistory\<lparr> undoStack := [''x''], redoStack := [''first;second;''] \<rparr>) ''x''"
proof -
  have h: "canvas exampleHistory = Some exampleCanvas" "\<not> isRestoring exampleHistory"
    "undoStack exampleHistory \<noteq> []"
    "last (undoStack exampleHistory) \<noteq> snapshotOf exampleStringify (exampleCanvas, heap exampleHistory)"
    unfolding example_history_snapshot by (simp_all add: exampleHistory_def exampleApp_def)
  have s: "saveStateImmediate exampleStringify exampleHistory =
      exampleHistory\<lparr> undoStack := [''x'', ''first;second;''], redoStack := [] \<rparr>"
    using saveStateImmediate_push[OF h(1,2), of exampleStringify] h(4)
    by (simp add: example_history_snapshot MAX_HISTORY_def) (simp add: exampleHistory_def)
  have x: "butlast [''x'', ''first;second;''] = [''x'']" by simp
  from undo_redo_after_capture[OF h, of exampleLoad, THEN conjunct1]
  have "undo exampleLoad (saveStateImmediate exampleStringify exampleHistory) =
     restoreState exampleLoad
       (exampleHistory\<lparr> undoStack := [''x''], redoStack := [''first;second;''] \<rparr>) ''x''"
    unfolding s example_history_snapshot by (simp add: exampleHistory_def)
  then show ?thesis
    using h(1,2) by (simp add: example_history_snapshot) (simp add: exampleHistory_def)
qed

section \<open>Properties of the reflow\<close>

lemma arrange_canvas [simp]: "canvas (fst (arrangeObjectOnCanvas st objToArrange)) = canvas st"
  and arrange_isRestoring [simp]:
    "isRestoring (fst (arrangeObjectOnCanvas st objToArrange)) = isRestoring st"
  and arrange_undoStack [simp]:
    "undoStack (fst (arrangeObjectOnCanvas st objToArrange)) = undoStack st"
  and arrange_redoStack [simp]:
    "redoStack (fst (arrangeObjectOnCanvas st objToArrange)) = redoStack st"
  and arrange_saveStateTimeout [simp]:
    "saveStateTimeout (fst (arrangeObjectOnCanvas st objToArrange)) = saveStateTimeout st"
  by (simp_all add: arrangeObjectOnCanvas_def Let_def split: option.splits)

lemma arrange_name [simp]:
    "name (heap (fst (arrangeObjectOnCanvas st objToArrange)) r) = name (heap st r)"
  and arrange_scaledWidth [simp]:
    "scaledWidth (heap (fst (arrangeObjectOnCanvas st objToArrange)) r) = scaledWidth (heap st r)"
  and arrange_scaledHeight [simp]:
    "scaledHeight (heap (fst (arrangeObjectOnCanvas st objToArrange)) r) = scaledHeight (heap st r)"
  and arrange_angle [simp]:
    "angle (heap (fst (arrangeObjectOnCanvas st objToArrange)) r) = angle (heap st r)"
  by (simp_all add: arrangeObjectOnCanvas_def Let_def setCentre_def split: option.splits)

lemma arrange_heap_other:
  "objToArrange \<noteq> Some r \<Longrightarrow> heap (fst (arrangeObjectOnCanvas st objToArrange)) r = heap st r"
  by (simp add: arrangeObjectOnCanvas_def Let_def split: option.splits)

lemma arrange_isBleed [simp]:
  "isBleedObject (heap (fst (arrangeObjectOnCanvas st objToArrange)) r) = isBleedObject (heap st r)"
  by (simp add: isBleedObject_def)

lemma outOfBounds_iff: "outOfBounds S b \<longleftrightarrow> \<not> containsRect S (boundsRect b)"
  by (auto simp: outOfBounds_def containsRect_def boundsRect_def)

lemma arrange_in_bounds:
  assumes "canvas st = Some c" "\<not> safeInvalid (safeRectOf c)"
    "upright (heap st x)" "fitsSafeArea (safeRectOf c) (heap st x)"
  shows "\<not> outOfBounds (safeRectOf c)
           (getBoundingRect (heap (fst (arrangeObjectOnCanvas st (Some x))) x))"
proof -
  let ?w = "scaledWidth (heap st x)" and ?h = "scaledHeight (heap st x)"
  let ?S = "safeRectOf c"
  let ?frs = "sortRects (computeFreeSpace ?S
          (map (\<lambda>b. getBoundingRect (heap st b)) (blockersOf c (heap st) x)))"
  from assms(3) have up: "angle (heap st x) = 0" "0 \<le> ?w" "0 \<le> ?h"
    by (simp_all add: upright_def)
  show ?thesis
  proof (cases "find (fits ?w ?h) ?frs")
    case None
    have "boundsRect (getBoundingRect (setCentre (heap st x)
            ((rect_left ?S + rect_right ?S) / 2) ((rect_top ?S + rect_bottom ?S) / 2))) =
       \<lparr> rect_left = (rect_left ?S + rect_right ?S) / 2 - ?w / 2,
         rect_top = (rect_top ?S + rect_bottom ?S) / 2 - ?h / 2,
         rect_right = (rect_left ?S + rect_right ?S) / 2 - ?w / 2 + ?w,
         rect_bottom = (rect_top ?S + rect_bottom ?S) / 2 - ?h / 2 + ?h \<rparr>"
      using up by (simp add: boundsRect_def getBoundingRect_eval setCentre_def)
    moreover have "containsRect ?S \<dots>"
      using assms(4) by (simp add: containsRect_def fitsSafeArea_def field_simps)
    ultimately show ?thesis
      by (simp add: arrange_not_found[OF assms(1,2) None] outOfBounds_iff)
  next
    case (Some R)
    then have "R \<in> set ?frs" and Rfit: "fits ?w ?h R"
      by (auto simp: find_Some_iff)
    then have "containsRect ?S R"
      using computeFreeSpace_inside by (simp add: set_sortRects)
    moreover have "containsRect R \<lparr> rect_left = rect_left R, rect_top = rect_top R,
        rect_right = rect_left R + ?w, rect_bottom = rect_top R + ?h \<rparr>"
      using Rfit up by (simp add: fits_def containsRect_def)
    ultimately have "containsRect ?S \<lparr> rect_left = rect_left R, rect_top = rect_top R,
        rect_right = rect_left R + ?w, rect_bottom = rect_top R + ?h \<rparr>"
      by (rule containsRect_trans)
    then show ?thesis
      by (simp add: arrange_found[OF assms(1,2) Some] outOfBounds_iff boundsRect_setCentre[OF up])
  qed
qed

lemma safeRectOf_cong:
  "width c' = width c \<Longrightarrow> height c' = height c \<Longrightarrow> zoom c' = zoom c \<Longrightarrow>
     safeRectOf c' = safeRectOf c"
  by (simp add: safeRectOf_def virtualWidth_def virtualHeight_def zoomOf_def)

lemma fitsSafeArea_arrange [simp]:
  "fitsSafeArea S (heap (fst (arrangeObjectOnCanvas st objToArrange)) r) = fitsSafeArea S (heap st r)"
  by (simp add: fitsSafeArea_def)

lemma upright_arrange [simp]:
  "upright (heap (fst (arrangeObjectOnCanvas st objToArrange)) r) = upright (heap st r)"
  by (simp add: upright_def)

lemma reflowStep_inv:
  assumes "reflowInv S c st (x # todo)" "S = safeRectOf c" "\<not> safeInvalid S"
  shows "reflowInv S c (fst (reflowStep (st, failed) x)) todo"
proof -
  from assms(1) obtain c' where r: "isRestoring st" and c': "canvas st = Some c'"
    and dims: "width c' = width c" "height c' = height c" "zoom c' = zoom c"
    and all: "set (objects c') \<union> set (x # todo) = set (objects c)"
    and objs: "\<forall>r\<in>set (objects c'). \<not> isBleedObject (heap st r) \<longrightarrow>
           r \<in> set (x # todo) \<or> \<not> outOfBounds S (getBoundingRect (heap st r))"
    and fit: "\<forall>r\<in>set (x # todo). upright (heap st r) \<and> fitsSafeArea S (heap st r)"
    unfolding reflowInv_def by (elim exE conjE) (rule that; assumption)
  let ?c1 = "c'\<lparr> objects := objects c' @ [x] \<rparr>"
  let ?st1 = "st\<lparr> canvas := Some ?c1 \<rparr>"
  have add: "canvas_add st x = ?st1"
    using r c' by (simp add: canvas_add_def saveState_def bringBleedObjectsToFront_def)
  let ?st2 = "fst (arrangeObjectOnCanvas ?st1 (Some x))"
  have res: "fst (reflowStep (st, failed) x) = ?st2"
    by (simp add: reflowStep_def add split: prod.splits)
  have S1: "safeRectOf ?c1 = S" using dims assms(2) safeRectOf_cong[of ?c1 c] by simp
  have c1: "canvas ?st1 = Some ?c1" by simp
  have xin: "\<not> outOfBounds S (getBoundingRect (heap ?st2 x))"
    using arrange_in_bounds[OF c1, of x] S1 assms(3) fit by simp
  have other: "heap ?st2 r = heap st r" if "r \<noteq> x" for r
    using that arrange_heap_other[of "Some x" r ?st1] by simp
  have A: "\<forall>r\<in>set (objects ?c1). \<not> isBleedObject (heap ?st2 r) \<longrightarrow>
           r \<in> set todo \<or> \<not> outOfBounds S (getBoundingRect (heap ?st2 r))"
  proof (intro ballI impI)
    fix r assume rin: "r \<in> set (objects ?c1)" and nb: "\<not> isBleedObject (heap ?st2 r)"
    show "r \<in> set todo \<or> \<not> outOfBounds S (getBoundingRect (heap ?st2 r))"
    proof (cases "r = x")
      case True
      with xin show ?thesis by simp
    next
      case False
      with rin have "r \<in> set (objects c')" by simp
      moreover from nb have "\<not> isBleedObject (heap st r)" by simp
      ultimately have "r \<in> set (x # todo) \<or> \<not> outOfBounds S (getBoundingRect (heap st r))"
        using objs by blast
      with False other[OF False] show ?thesis by simp
    qed
  qed
  have B: "\<forall>r\<in>set todo. upright (heap ?st2 r) \<and> fitsSafeArea S (heap ?st2 r)" using fit by simp
  have C: "isRestoring ?st2" using r by simp
  have D: "canvas ?st2 = Some ?c1" by simp
  have E: "set (objects ?c1) \<union> set todo = set (objects c)" using all by auto
  have F: "width ?c1 = width c" "height ?c1 = height c" "zoom ?c1 = zoom c" using dims by simp_all
  show ?thesis
    unfolding res reflowInv_def
    by (intro conjI exI[of _ ?c1] D F E A B C)
qed

lemma foldl_reflowStep_inv:
  assumes "reflowInv S c st todo" "S = safeRectOf c" "\<not> safeInvalid S"
  shows "reflowInv S c (fst (foldl reflowStep (st, failed) todo)) []"
  using assms(1)
proof (induction todo arbitrary: st failed)
  case Nil
  then show ?case by simp
next
  case (Cons x todo)
  obtain st' failed' where s: "reflowStep (st, failed) x = (st', failed')"
    by (cases "reflowStep (st, failed) x")
  from reflowStep_inv[OF Cons.prems assms(2,3), of failed] s
  have "reflowInv S c st' todo" by simp
  from Cons.IH[OF this, of failed'] s show ?case by simp
qed

lemma reflowStep_name:
  "name (heap (fst (reflowStep (st, failed) x)) r) = name (heap st r)"
  by (simp add: reflowStep_def canvas_add_def saveState_def bringBleedObjectsToFront_def
      case_prod_beta)

lemma foldl_reflowStep_name:
  "name (heap (fst (foldl reflowStep (st, failed) todo)) r) = name (heap st r)"
proof (induction todo arbitrary: st failed)
  case Nil
  show ?case by simp
next
  case (Cons x todo)
  obtain st' failed' where s: "reflowStep (st, failed) x = (st', failed')"
    by (cases "reflowStep (st, failed) x")
  have "name (heap st' r) = name (heap st r)"
    using reflowStep_name[of st failed x r] s by simp
  with Cons.IH[of st' failed'] s show ?case by simp
qed

lemma reflow_noop:
  assumes "canvas st = Some c"
    "safeInvalid (safeRectOf c) \<or>
     (\<forall>r\<in>set (getUserObjects c (heap st)).
        \<not> outOfBounds (safeRectOf c) (getBoundingRect (heap st r)))"
  shows "reflowObjectsIntoSafeArea st = (st, 0)"
proof -
  have "filter (\<lambda>obj. outOfBounds (safeRectOf c) (getBoundingRect (heap st obj)))
          (getUserObjects c (heap st)) = []" if "\<not> safeInvalid (safeRectOf c)"
    using assms(2) that by (simp add: filter_empty_conv)
  then show ?thesis
    using assms(1) by (simp add: reflowObjectsIntoSafeArea_def Let_def)
qed

lemma set_foldl_remove1: "set (foldl (\<lambda>l r. remove1 r l) xs ys) \<subseteq> set xs"
proof (induction ys arbitrary: xs)
  case Nil
  show ?case by simp
next
  case (Cons y ys)
  have "set (foldl (\<lambda>l r. remove1 r l) (remove1 y xs) ys) \<subseteq> set (remove1 y xs)"
    by (rule Cons.IH)
  also have "\<dots> \<subseteq> set xs" by (rule set_remove1_subset)
  finally show ?case by simp
qed

lemma set_remove1_insert: "insert y (set (remove1 y xs)) = insert y (set xs)"
  by (induction xs) auto

lemma set_foldl_remove1_Un:
  "set (foldl (\<lambda>l r. remove1 r l) xs ys) \<union> set ys = set xs \<union> set ys"
proof (induction ys arbitrary: xs)
  case Nil
  show ?case by simp
next
  case (Cons y ys)
  have "set (foldl (\<lambda>l r. remove1 r l) (remove1 y xs) ys) \<union> set ys = set (remove1 y xs) \<union> set ys"
    by (rule Cons.IH)
  then have "insert y (set (foldl (\<lambda>l r. remove1 r l) (remove1 y xs) ys) \<union> set ys) =
      insert y (set (remove1 y xs)) \<union> set ys"
    by simp
  then show ?case by (simp add: set_remove1_insert)
qed

lemma reflow_result:
  assumes "canvas st = Some c" "\<not> safeInvalid (safeRectOf c)"
    "\<forall>obj\<in>set (getUserObjects c (heap st)).
       upright (heap st obj) \<and> fitsSafeArea (safeRectOf c) (heap st obj)"
  shows "\<exists>c'. canvas (fst (reflowObjectsIntoSafeArea st)) = Some c' \<and>
           safeRectOf c' = safeRectOf c \<and>
           set (getUserObjects c' (heap (fst (reflowObjectsIntoSafeArea st)))) =
             set (getUserObjects c (heap st)) \<and>
           (\<forall>r\<in>set (getUserObjects c' (heap (fst (reflowObjectsIntoSafeArea st)))).
              \<not> outOfBounds (safeRectOf c)
                   (getBoundingRect (heap (fst (reflowObjectsIntoSafeArea st)) r)))"
proof -
  let ?S = "safeRectOf c"
  let ?oob = "filter (\<lambda>obj. outOfBounds ?S (getBoundingRect (heap st obj)))
                (getUserObjects c (heap st))"
  show ?thesis
  proof (cases "?oob = []")
    case True
    then have "\<forall>r\<in>set (getUserObjects c (heap st)).
        \<not> outOfBounds ?S (getBoundingRect (heap st r))"
      by (simp add: filter_empty_conv)
    then show ?thesis
      using assms(1) by (simp add: reflow_noop[OF assms(1)])
  next
    case False
    let ?st1 = "st\<lparr> isRestoring := True \<rparr>"
    let ?c2 = "c\<lparr> objects := foldl (\<lambda>l r. remove1 r l) (objects c) ?oob \<rparr>"
    let ?st2 = "?st1\<lparr> canvas := Some ?c2 \<rparr>"
    let ?st3 = "fst (foldl reflowStep (?st2, []) ?oob)"
    let ?st5 = "?st3\<lparr> isRestoring := isRestoring st \<rparr>"
    have rm: "foldl canvas_remove ?st1 ?oob = ?st2"
      by (rule foldl_canvas_remove_restoring) (simp_all add: assms(1))
    have sub: "set ?oob \<subseteq> set (objects c)" by (auto simp: getUserObjects_def)
    have un: "set (objects ?c2) \<union> set ?oob = set (objects c)"
      using set_foldl_remove1_Un[of "objects c" ?oob] sub by auto
    have inv2: "reflowInv ?S c ?st2 ?oob"
      unfolding reflowInv_def
    proof (intro conjI exI[of _ ?c2] ballI impI)
      fix r assume "r \<in> set (objects ?c2)" and nb: "\<not> isBleedObject (heap ?st2 r)"
      then have "r \<in> set (objects c)" using set_foldl_remove1 by fastforce
      with nb have "r \<in> set (getUserObjects c (heap st))" by (simp add: getUserObjects_def)
      then show "r \<in> set ?oob \<or> \<not> outOfBounds ?S (getBoundingRect (heap ?st2 r))"
        by simp
    next
      fix r assume "r \<in> set ?oob"
      then show "upright (heap ?st2 r)" and "fitsSafeArea ?S (heap ?st2 r)"
        using assms(3) by simp_all
    next
      show "set (objects ?c2) \<union> set ?oob = set (objects c)" by (rule un)
    qed simp_all
    have inv3: "reflowInv ?S c ?st3 []"
      by (rule foldl_reflowStep_inv[OF inv2 refl assms(2)])
    then obtain c3 where r3: "isRestoring ?st3" and c3: "canvas ?st3 = Some c3"
      and dims: "width c3 = width c" "height c3 = height c" "zoom c3 = zoom c"
      and all3: "set (objects c3) = set (objects c)"
      and inb: "\<forall>r\<in>set (objects c3). \<not> isBleedObject (heap ?st3 r) \<longrightarrow>
           \<not> outOfBounds ?S (getBoundingRect (heap ?st3 r))"
      by (auto simp: reflowInv_def)
    have res: "fst (reflowObjectsIntoSafeArea st) =
        (if \<not> isRestoring st then saveState ?st5 else ?st5)"
      using assms(1,2) False
      by (simp add: reflowObjectsIntoSafeArea_def Let_def rm bringBleed_restoring[OF r3])
    have cv: "canvas (fst (reflowObjectsIntoSafeArea st)) = Some c3"
      and hp: "heap (fst (reflowObjectsIntoSafeArea st)) = heap ?st3"
      unfolding res by (simp_all add: saveState_def c3)
    have nm: "isBleedObject (heap ?st3 r) = isBleedObject (heap st r)" for r
      using foldl_reflowStep_name[of ?st2 "[]" ?oob r] by (simp add: isBleedObject_def)
    have users: "set (getUserObjects c3 (heap ?st3)) = set (getUserObjects c (heap st))"
    proof -
      have "set (getUserObjects c3 (heap ?st3)) =
          {r \<in> set (objects c3). \<not> isBleedObject (heap ?st3 r)}"
        by (simp only: getUserObjects_def set_filter)
      also have "\<dots> = {r \<in> set (objects c). \<not> isBleedObject (heap st r)}"
        unfolding all3 nm by (rule refl)
      also have "\<dots> = set (getUserObjects c (heap st))"
        by (simp only: getUserObjects_def set_filter)
      finally show ?thesis .
    qed
    have "\<forall>r\<in>set (getUserObjects c3 (heap ?st3)).
              \<not> outOfBounds ?S (getBoundingRect (heap ?st3 r))"
      using inb by (simp add: getUserObjects_def)
    then show ?thesis
      unfolding cv hp using safeRectOf_cong[OF dims] users by simp
  qed
qed

text \<open>
  Claim C4, amended. Take a canvas whose virtual width and height are whole numbers and on
  which every user object is not rotated, has a footprint that is not negative and no wider
  and no higher than the safe area, and has whole numbers for its position and footprint.
  When the safe area is valid, the first call of \<open>reflowObjectsIntoSafeArea\<close> keeps the user
  objects and leaves the bounding box of every one of them inside the safe area; and in every
  case a second call right after the first moves no object and leaves the state as it is.
\<close>

theorem reflow_twice:
  assumes "canvas st = Some c"
    and "wholeNumber (virtualWidth c)" and "wholeNumber (virtualHeight c)"
    and "\<forall>obj\<in>set (getUserObjects c (heap st)).
           angle (heap st obj) = 0 \<and>
           0 \<le> scaledWidth (heap st obj) \<and> 0 \<le> scaledHeight (heap st obj) \<and>
           fitsSafeArea (safeRectOf c) (heap st obj) \<and>
           wholeNumber (obj_left (heap st obj)) \<and> wholeNumber (obj_top (heap st obj)) \<and>
           wholeNumber (scaledWidth (heap st obj)) \<and> wholeNumber (scaledHeight (heap st obj))"
  shows "(\<not> safeInvalid (safeRectOf c) \<longrightarrow>
            (\<exists>c'. canvas (fst (reflowObjectsIntoSafeArea st)) = Some c' \<and>
               safeRectOf c' = safeRectOf c \<and>
               set (getUserObjects c' (heap (fst (reflowObjectsIntoSafeArea st)))) =
                 set (getUserObjects c (heap st)) \<and>
               (\<forall>r\<in>set (getUserObjects c' (heap (fst (reflowObjectsIntoSafeArea st)))).
                  \<not> outOfBounds (safeRectOf c)
                       (getBoundingRect (heap (fst (reflowObjectsIntoSafeArea st)) r))))) \<and>
         reflowObjectsIntoSafeArea (fst (reflowObjectsIntoSafeArea st)) =
           (fst (reflowObjectsIntoSafeArea st), 0)"
proof (cases "safeInvalid (safeRectOf c)")
  case True
  then have "reflowObjectsIntoSafeArea st = (st, 0)"
    using assms(1) by (simp add: reflow_noop)
  then show ?thesis using True by simp
next
  case False
  have "\<forall>obj\<in>set (getUserObjects c (heap st)).
       upright (heap st obj) \<and> fitsSafeArea (safeRectOf c) (heap st obj)"
    using assms(4) by (simp add: upright_def)
  from reflow_result[OF assms(1) False this] obtain c' where
    c': "canvas (fst (reflowObjectsIntoSafeArea st)) = Some c'"
    and S: "safeRectOf c' = safeRectOf c"
    and U: "set (getUserObjects c' (heap (fst (reflowObjectsIntoSafeArea st)))) =
                 set (getUserObjects c (heap st))"
    and inb: "\<forall>r\<in>set (getUserObjects c' (heap (fst (reflowObjectsIntoSafeArea st)))).
              \<not> outOfBounds (safeRectOf c)
                   (getBoundingRect (heap (fst (reflowObjectsIntoSafeArea st)) r))"
    by (elim exE conjE) (rule that; assumption)
  have twice: "reflowObjectsIntoSafeArea (fst (reflowObjectsIntoSafeArea st)) =
           (fst (reflowObjectsIntoSafeArea st), 0)"
    by (rule reflow_noop[OF c']) (simp add: S inb)
  have "\<exists>c'. canvas (fst (reflowObjectsIntoSafeArea st)) = Some c' \<and>
               safeRectOf c' = safeRectOf c \<and>
               set (getUserObjects c' (heap (fst (reflowObjectsIntoSafeArea st)))) =
                 set (getUserObjects c (heap st)) \<and>
               (\<forall>r\<in>set (getUserObjects c' (heap (fst (reflowObjectsIntoSafeArea st)))).
                  \<not> outOfBounds (safeRectOf c)
                       (getBoundingRect (heap (fst (reflowObjectsIntoSafeArea st)) r)))"
    by (intro exI[of _ c'] conjI c' S U inb)
  with twice show ?thesis by simp
qed

lemma example_oversized_once:
  "reflowObjectsIntoSafeArea exampleOversized =
     (exampleOversized\<lparr> heap := (heap exampleOversized)
         (1 := \<lparr> name = ''wide'', obj_left = 1240, obj_top = 874, originX = XCenter,
                 originY = YCenter, scaledWidth = 3000, scaledHeight = 100, angle = 0 \<rparr>),
        saveStateTimeout := True \<rparr>, 1)"
  by (simp add: reflowObjectsIntoSafeArea_def exampleOversized_def Let_def safeRectOf_def
      BLEED_PIXELS_eq PLACEMENT_PADDING_def virtualWidth_def virtualHeight_def zoomOf_def
      safeInvalid_def getUserObjects_def isBleedObject_def outOfBounds_def getBoundingRect_eval
      canvas_remove_def canvas_add_def saveState_def bringBleedObjectsToFront_def reflowStep_def
      arrangeObjectOnCanvas_def blockersOf_def computeFreeSpace_def pruneContainedRects_def
      sortRects_def fits_def setCentre_def)

text \<open>
  Claim C4, as stated, fails for an item that is wider than the safe area: the first call
  centres it on the safe area, where it still sticks out, and the second call moves it again.
\<close>

theorem reflow_twice_counterexample:
  "snd (reflowObjectsIntoSafeArea (fst (reflowObjectsIntoSafeArea exampleOversized))) = 1"
  unfolding example_oversized_once
  by (simp add: reflowObjectsIntoSafeArea_def exampleOversized_def Let_def safeRectOf_def
      BLEED_PIXELS_eq PLACEMENT_PADDING_def virtualWidth_def virtualHeight_def zoomOf_def
      safeInvalid_def getUserObjects_def isBleedObject_def outOfBounds_def getBoundingRect_eval)

lemma example_users: "getUserObjects exampleCanvas (heap exampleApp) = [1, 2]"
  by (simp add: getUserObjects_def exampleCanvas_def example_heap exampleHeap_def isBleedObject_def)

lemma example_whole:
  "wholeNumber (virtualWidth exampleCanvas)" "wholeNumber (virtualHeight exampleCanvas)"
  "wholeNumber (obj_left (heap exampleApp 1))" "wholeNumber (obj_top (heap exampleApp 1))"
  "wholeNumber (scaledWidth (heap exampleApp 1))" "wholeNumber (scaledHeight (heap exampleApp 1))"
  "wholeNumber (obj_left (heap exampleApp 2))" "wholeNumber (obj_top (heap exampleApp 2))"
  "wholeNumber (scaledWidth (heap exampleApp 2))" "wholeNumber (scaledHeight (heap exampleApp 2))"
  by (simp_all add: wholeNumber_def virtualWidth_def virtualHeight_def zoomOf_def exampleCanvas_def
      example_heap exampleHeap_def)

lemma example_upright_fit:
  "angle (heap exampleApp 1) = 0" "angle (heap exampleApp 2) = 0"
  "0 \<le> scaledWidth (heap exampleApp 1)" "0 \<le> scaledHeight (heap exampleApp 1)"
  "0 \<le> scaledWidth (heap exampleApp 2)" "0 \<le> scaledHeight (heap exampleApp 2)"
  "fitsSafeArea (safeRectOf exampleCanvas) (heap exampleApp 1)"
  "fitsSafeArea (safeRectOf exampleCanvas) (heap exampleApp 2)"
  by (simp_all add: example_safe example_heap exampleHeap_def fitsSafeArea_def)

lemma example_out:
  "filter (\<lambda>obj. outOfBounds (safeRectOf exampleCanvas) (getBoundingRect (heap exampleApp obj)))
     (getUserObjects exampleCanvas (heap exampleApp)) = [2]"
  unfolding example_users
  by (simp add: example_safe example_heap exampleHeap_def outOfBounds_def getBoundingRect_eval)

lemma example_removed:
  "canvas_remove (exampleApp\<lparr> isRestoring := True \<rparr>) 2 =
     exampleApp\<lparr> isRestoring := True, canvas := Some (exampleCanvas\<lparr> objects := [1] \<rparr>) \<rparr>"
  by (simp add: canvas_remove_def saveState_def exampleApp_def exampleCanvas_def)

lemma example_added:
  "canvas_add (exampleApp\<lparr> isRestoring := True, canvas := Some (exampleCanvas\<lparr> objects := [1] \<rparr>) \<rparr>) 2 =
     exampleApp\<lparr> isRestoring := True \<rparr>"
  by (simp add: canvas_add_def saveState_def bringBleedObjectsToFront_def exampleApp_def
      exampleCanvas_def)

lemma example_arranged_restoring:
  "arrangeObjectOnCanvas (exampleApp\<lparr> isRestoring := True \<rparr>) (Some 2) =
     (exampleApp\<lparr> isRestoring := True,
        heap := exampleHeap(2 := setCentre (exampleHeap 2) 229 266) \<rparr>, True)"
proof -
  have c: "canvas (exampleApp\<lparr> isRestoring := True \<rparr>) = Some exampleCanvas"
    and h: "heap (exampleApp\<lparr> isRestoring := True \<rparr>) = exampleHeap"
    by (simp_all add: exampleApp_def)
  have "find (fits (scaledWidth (heap (exampleApp\<lparr> isRestoring := True \<rparr>) 2))
          (scaledHeight (heap (exampleApp\<lparr> isRestoring := True \<rparr>) 2)))
       (sortRects (computeFreeSpace (safeRectOf exampleCanvas)
          (map (\<lambda>b. getBoundingRect (heap (exampleApp\<lparr> isRestoring := True \<rparr>) b))
             (blockersOf exampleCanvas (heap (exampleApp\<lparr> isRestoring := True \<rparr>)) 2))))
     = Some \<lparr>rect_left = 79, rect_top = 191, rect_right = 2401, rect_bottom = 1669\<rparr>"
    unfolding h example_free
    by (simp add: sortRects_def fits_def exampleHeap_def)
  from arrange_found[OF c example_safe_valid this] show ?thesis
    by (simp add: h exampleHeap_def)
qed

lemma example_reflowed:
  "reflowObjectsIntoSafeArea exampleApp =
     (exampleApp\<lparr> heap := exampleHeap(2 := setCentre (exampleHeap 2) 229 266),
        saveStateTimeout := True \<rparr>, 1)"
proof -
  have r: "\<not> isRestoring exampleApp" by (simp add: exampleApp_def)
  have s: "reflowStep (exampleApp\<lparr> isRestoring := True, canvas := Some (exampleCanvas\<lparr> objects := [1] \<rparr>) \<rparr>, []) 2 =
     (exampleApp\<lparr> isRestoring := True,
        heap := exampleHeap(2 := setCentre (exampleHeap 2) 229 266) \<rparr>, [])"
    unfolding reflowStep_def by (simp only: prod.case example_added example_arranged_restoring) simp
  have "reflowObjectsIntoSafeArea exampleApp =
     ((if \<not> isRestoring exampleApp
       then saveState ((bringBleedObjectsToFront (exampleApp\<lparr> isRestoring := True,
              heap := exampleHeap(2 := setCentre (exampleHeap 2) 229 266) \<rparr>))
                \<lparr> isRestoring := isRestoring exampleApp \<rparr>)
       else (bringBleedObjectsToFront (exampleApp\<lparr> isRestoring := True,
              heap := exampleHeap(2 := setCentre (exampleHeap 2) 229 266) \<rparr>))
                \<lparr> isRestoring := isRestoring exampleApp \<rparr>), 1)"
    unfolding reflowObjectsIntoSafeArea_def
    by (simp only: example_canvas option.case Let_def example_safe_valid if_False example_out
        foldl.simps example_removed s fst_conv) simp
  also have "\<dots> = (exampleApp\<lparr> heap := exampleHeap(2 := setCentre (exampleHeap 2) 229 266),
        saveStateTimeout := True \<rparr>, 1)"
    by (simp add: bringBleedObjectsToFront_def saveState_def exampleApp_def)
  finally show ?thesis .
qed

theorem reflow_twice_witness:
  "canvas exampleApp = Some exampleCanvas \<and>
   \<not> safeInvalid (safeRectOf exampleCanvas) \<and>
   outOfBounds (safeRectOf exampleCanvas) (getBoundingRect (heap exampleApp 2)) \<and>
   boundsRect (getBoundingRect (heap (fst (reflowObjectsIntoSafeArea exampleApp)) 2)) =
     \<lparr>rect_left = 79, rect_top = 191, rect_right = 379, rect_bottom = 341\<rparr> \<and>
   \<not> outOfBounds (safeRectOf exampleCanvas)
       (getBoundingRect (heap (fst (reflowObjectsIntoSafeArea exampleApp)) 2)) \<and>
   snd (reflowObjectsIntoSafeArea (fst (reflowObjectsIntoSafeArea exampleApp))) = 0"
proof -
  have o: "outOfBounds (safeRectOf exampleCanvas) (getBoundingRect (heap exampleApp 2))"
    by (simp add: example_safe example_heap exampleHeap_def outOfBounds_def getBoundingRect_eval)
  have b: "boundsRect (getBoundingRect (heap (fst (reflowObjectsIntoSafeArea exampleApp)) 2)) =
     \<lparr>rect_left = 79, rect_top = 191, rect_right = 379, rect_bottom = 341\<rparr>"
    unfolding example_reflowed
    by (simp add: exampleHeap_def setCentre_def boundsRect_def getBoundingRect_eval)
  have n: "\<not> outOfBounds (safeRectOf exampleCanvas)
       (getBoundingRect (heap (fst (reflowObjectsIntoSafeArea exampleApp)) 2))"
    unfolding outOfBounds_iff b by (simp add: example_safe containsRect_def)
  have "\<forall>obj\<in>set (getUserObjects exampleCanvas (heap exampleApp)).
           angle (heap exampleApp obj) = 0 \<and>
           0 \<le> scaledWidth (heap exampleApp obj) \<and> 0 \<le> scaledHeight (heap exampleApp obj) \<and>
           fitsSafeArea (safeRectOf exampleCanvas) (heap exampleApp obj) \<and>
           wholeNumber (obj_left (heap exampleApp obj)) \<and> wholeNumber (obj_top (heap exampleApp obj)) \<and>
           wholeNumber (scaledWidth (heap exampleApp obj)) \<and> wholeNumber (scaledHeight (heap exampleApp obj))"
    unfolding example_users using example_whole example_upright_fit by simp
  from reflow_twice[OF example_canvas example_whole(1,2) this]
  have "snd (reflowObjectsIntoSafeArea (fst (reflowObjectsIntoSafeArea exampleApp))) = 0"
    by simp
  with o b n example_canvas example_safe_valid show ?thesis
    by (intro conjI)
qed

section \<open>Termination of the fill-sheet loop\<close>

lemma finite_cells: "finite (cells S)"
  by (simp add: cells_def)

lemma floor_eq_close:
  fixes x y :: real
  assumes "\<lfloor>x\<rfloor> = \<lfloor>y\<rfloor>"
  shows "\<bar>x - y\<bar> < 1"
  using floor_correct[of x] floor_correct[of y] assms by linarith

lemma floor_div_eq_close:
  fixes a b s :: real
  assumes "\<lfloor>(a - s) / 12\<rfloor> = \<lfloor>(b - s) / 12\<rfloor>"
  shows "\<bar>a - b\<bar> < 12"
proof -
  have "(a - s) / 12 - (b - s) / 12 = (a - b) / 12" by (simp add: diff_divide_distrib)
  with floor_eq_close[OF assms] have "\<bar>(a - b) / 12\<bar> < 1" by simp
  then show ?thesis by simp
qed

lemma cellOf_eq_close:
  assumes "cellOf S a = cellOf S b"
  shows "\<bar>(bounds_left a + bounds_width a / 2) - (bounds_left b + bounds_width b / 2)\<bar>
            < PLACEMENT_GUTTER \<and>
         \<bar>(bounds_top a + bounds_height a / 2) - (bounds_top b + bounds_height b / 2)\<bar>
            < PLACEMENT_GUTTER"
proof -
  from assms have
    "\<lfloor>(bounds_left a + bounds_width a / 2 - rect_left S) / 12\<rfloor> =
     \<lfloor>(bounds_left b + bounds_width b / 2 - rect_left S) / 12\<rfloor>"
    "\<lfloor>(bounds_top a + bounds_height a / 2 - rect_top S) / 12\<rfloor> =
     \<lfloor>(bounds_top b + bounds_height b / 2 - rect_top S) / 12\<rfloor>"
    by (simp_all add: cellOf_def PLACEMENT_GUTTER_def)
  from floor_div_eq_close[OF this(1)] floor_div_eq_close[OF this(2)]
  show ?thesis by (simp add: PLACEMENT_GUTTER_def)
qed

text \<open>
  A blocker covers the gutter-sized square round the centre of its box, so a box whose centre
  lies in a free rectangle has its centre in another cell than every blocker.
\<close>

lemma free_centre_cell:
  assumes "R \<in> set (computeFreeSpace S bs)" "properRect S" "b \<in> set bs"
    "0 \<le> bounds_width b" "0 \<le> bounds_height b"
    "rect_left R \<le> bounds_left a + bounds_width a / 2"
    "bounds_left a + bounds_width a / 2 \<le> rect_right R"
    "rect_top R \<le> bounds_top a + bounds_height a / 2"
    "bounds_top a + bounds_height a / 2 \<le> rect_bottom R"
  shows "cellOf S a \<noteq> cellOf S b"
proof
  assume "cellOf S a = cellOf S b"
  from cellOf_eq_close[OF this]
  have cl: "\<bar>(bounds_left a + bounds_width a / 2) - (bounds_left b + bounds_width b / 2)\<bar> < 12"
    "\<bar>(bounds_top a + bounds_height a / 2) - (bounds_top b + bounds_height b / 2)\<bar> < 12"
    by (simp_all add: PLACEMENT_GUTTER_def)
  have pr: "properRect R" by (rule computeFreeSpace_proper[OF assms(1,2)])
  have R: "rect_left R < rect_right R" "rect_top R < rect_bottom R"
    using pr by (simp_all add: properRect_def)
  have x: "rect_left R < bounds_left b + bounds_width b + 12"
    "bounds_left b - 12 < rect_right R"
    using cl(1) assms(4,6,7) by linarith+
  have y: "rect_top R < bounds_top b + bounds_height b + 12"
    "bounds_top b - 12 < rect_bottom R"
    using cl(2) assms(5,8,9) by linarith+
  from x y R assms(4,5) have "overlaps R (blockerOf b)"
    by (simp add: overlaps_def blockerOf_def PLACEMENT_GUTTER_def)
  with computeFreeSpace_disjoint[OF assms(1,3)] show False by simp
qed

lemma free_centre_in_cells:
  assumes "R \<in> set (computeFreeSpace S bs)" "properRect S"
    "rect_left R \<le> bounds_left a + bounds_width a / 2"
    "bounds_left a + bounds_width a / 2 \<le> rect_right R"
    "rect_top R \<le> bounds_top a + bounds_height a / 2"
    "bounds_top a + bounds_height a / 2 \<le> rect_bottom R"
  shows "cellOf S a \<in> cells S"
proof -
  have ins: "containsRect S R" by (rule computeFreeSpace_inside[OF assms(1)])
  have x: "0 \<le> (bounds_left a + bounds_width a / 2 - rect_left S) / 12"
      "(bounds_left a + bounds_width a / 2 - rect_left S) / 12 \<le> (rect_right S - rect_left S) / 12"
    and y: "0 \<le> (bounds_top a + bounds_height a / 2 - rect_top S) / 12"
      "(bounds_top a + bounds_height a / 2 - rect_top S) / 12 \<le> (rect_bottom S - rect_top S) / 12"
    using ins assms(3-6) by (simp_all add: containsRect_def)
  show ?thesis
    using x(1) floor_mono[OF x(2)] y(1) floor_mono[OF y(2)]
    by (simp add: cells_def cellOf_def PLACEMENT_GUTTER_def)
qed

lemma occupied_subset: "occupied S c h \<subseteq> cells S"
  by (simp add: occupied_def)

lemma occupiedIn_subset: "occupiedIn c0 st \<subseteq> cells (safeRectOf c0)"
  by (simp add: occupiedIn_def occupied_subset split: option.splits)

lemma getUserObjects_heap_cong:
  assumes "\<forall>r\<in>set (objects c). h' r = h r"
  shows "getUserObjects c h' = getUserObjects c h"
  unfolding getUserObjects_def using assms by (intro filter_cong) simp_all

lemma occupied_heap_cong:
  assumes "\<forall>r\<in>set (objects c). h' r = h r"
  shows "occupied S c h' = occupied S c h"
proof -
  have u: "getUserObjects c h' = getUserObjects c h"
    by (rule getUserObjects_heap_cong[OF assms])
  have "set (getUserObjects c h) \<subseteq> set (objects c)" by (simp add: getUserObjects_def)
  then have "(\<lambda>r. cellOf S (getBoundingRect (h' r))) ` set (getUserObjects c h) =
      (\<lambda>r. cellOf S (getBoundingRect (h r))) ` set (getUserObjects c h)"
    using assms by (intro image_cong) auto
  then show ?thesis by (simp add: occupied_def u)
qed

lemma arrange_True:
  assumes "snd (arrangeObjectOnCanvas st (Some x))"
  shows "\<exists>c R. canvas st = Some c \<and> \<not> safeInvalid (safeRectOf c) \<and>
     find (fits (scaledWidth (heap st x)) (scaledHeight (heap st x)))
       (sortRects (computeFreeSpace (safeRectOf c)
          (map (\<lambda>b. getBoundingRect (heap st b)) (blockersOf c (heap st) x)))) = Some R"
  using assms
  by (auto simp: arrangeObjectOnCanvas_def Let_def split: option.splits if_splits)

lemma safeInvalid_proper: "\<not> safeInvalid S \<longleftrightarrow> properRect S"
  by (auto simp: safeInvalid_def properRect_def)

lemma placed_clone_cell:
  assumes c1: "canvas st1 = Some c1"
    and placed: "snd (arrangeObjectOnCanvas st1 (Some f))"
    and nonneg: "0 \<le> scaledWidth (heap st1 f)" "0 \<le> scaledHeight (heap st1 f)"
  shows "cellOf (safeRectOf c1) (getBoundingRect (heap (fst (arrangeObjectOnCanvas st1 (Some f))) f))
           \<in> cells (safeRectOf c1)"
    and "\<forall>r\<in>set (blockersOf c1 (heap st1) f).
           cellOf (safeRectOf c1) (getBoundingRect (heap st1 r)) \<noteq>
           cellOf (safeRectOf c1) (getBoundingRect (heap (fst (arrangeObjectOnCanvas st1 (Some f))) f))"
proof -
  let ?S = "safeRectOf c1"
  let ?bs = "map (\<lambda>b. getBoundingRect (heap st1 b)) (blockersOf c1 (heap st1) f)"
  let ?w = "scaledWidth (heap st1 f)" and ?h = "scaledHeight (heap st1 f)"
  from arrange_True[OF placed] c1 obtain R where valid: "\<not> safeInvalid ?S"
    and R: "find (fits ?w ?h) (sortRects (computeFreeSpace ?S ?bs)) = Some R"
    by auto
  from R have "R \<in> set (sortRects (computeFreeSpace ?S ?bs))" and Rfit: "fits ?w ?h R"
    by (auto simp: find_Some_iff)
  then have Rin: "R \<in> set (computeFreeSpace ?S ?bs)" by (simp add: set_sortRects)
  have pS: "properRect ?S" using valid by (simp add: safeInvalid_proper)
  let ?o = "setCentre (heap st1 f) (rect_left R + ?w / 2) (rect_top R + ?h / 2)"
  let ?a = "getBoundingRect (heap (fst (arrangeObjectOnCanvas st1 (Some f))) f)"
  have o: "heap (fst (arrangeObjectOnCanvas st1 (Some f))) f = ?o"
    by (simp add: arrange_found[OF c1 valid R])
  have cx: "bounds_left ?a + bounds_width ?a / 2 = rect_left R + ?w / 2"
    and cy: "bounds_top ?a + bounds_height ?a / 2 = rect_top R + ?h / 2"
    unfolding o using getBoundingRect_centred[of ?o] by (simp_all add: setCentre_def)
  have a: "rect_left R \<le> bounds_left ?a + bounds_width ?a / 2"
    "bounds_left ?a + bounds_width ?a / 2 \<le> rect_right R"
    "rect_top R \<le> bounds_top ?a + bounds_height ?a / 2"
    "bounds_top ?a + bounds_height ?a / 2 \<le> rect_bottom R"
    unfolding cx cy using Rfit nonneg by (simp_all add: fits_def)
  show "cellOf ?S ?a \<in> cells ?S"
    by (rule free_centre_in_cells[OF Rin pS a])
  show "\<forall>r\<in>set (blockersOf c1 (heap st1) f). cellOf ?S (getBoundingRect (heap st1 r)) \<noteq> cellOf ?S ?a"
  proof
    fix r assume r: "r \<in> set (blockersOf c1 (heap st1) f)"
    then have b: "getBoundingRect (heap st1 r) \<in> set ?bs" by simp
    have w: "0 \<le> bounds_width (getBoundingRect (heap st1 r))"
        "0 \<le> bounds_height (getBoundingRect (heap st1 r))"
      by (simp_all add: getBoundingRect_def boxWidth_nonneg boxHeight_nonneg)
    from free_centre_cell[OF Rin pS b w a]
    show "cellOf ?S (getBoundingRect (heap st1 r)) \<noteq> cellOf ?S ?a" by simp
  qed
qed

lemma cloneStep_spec:
  assumes inv: "fillInv c0 po st" and base: "base \<in> set po"
  shows "\<exists>st' n'. cloneStep rejects (st, k, n) base = (st', Suc k, n') \<and>
           fillInv c0 po st' \<and> n \<le> n' \<and>
           card (occupiedIn c0 st) + (n' - n) \<le> card (occupiedIn c0 st')"
proof (cases "rejects k")
  case True
  then have "cloneStep rejects (st, k, n) base = (st, Suc k, n)"
    by (simp add: cloneStep_def)
  with inv show ?thesis by simp
next
  case False
  from inv obtain c where r: "isRestoring st" and c: "canvas st = Some c"
    and dims: "width c = width c0" "height c = height c0" "zoom c = zoom c0"
    and po: "set po \<subseteq> set (getUserObjects c (heap st))"
    and nonneg: "\<forall>r\<in>set (getUserObjects c (heap st)).
           0 \<le> scaledWidth (heap st r) \<and> 0 \<le> scaledHeight (heap st r)"
    by (auto simp: fillInv_def)
  let ?S = "safeRectOf c0"
  let ?f = "newRef (objects c)"
  let ?h1 = "(heap st)(?f := heap st base)"
  let ?c1 = "c\<lparr> objects := objects c @ [?f] \<rparr>"
  let ?st1 = "st\<lparr> heap := ?h1, canvas := Some ?c1 \<rparr>"
  let ?arr = "arrangeObjectOnCanvas ?st1 (Some ?f)"
  let ?st2 = "fst ?arr"
  have fresh: "?f \<notin> set (objects c)" by (rule newRef_fresh)
  have add: "canvas_add (st\<lparr> heap := ?h1 \<rparr>) ?f = ?st1"
    using canvas_add_restoring[of "st\<lparr> heap := ?h1 \<rparr>" c ?f] r c by simp
  have baseU: "base \<in> set (getUserObjects c (heap st))" using base po by blast
  then have baseNB: "\<not> isBleedObject (heap st base)" by (simp add: getUserObjects_def)
  have old1: "\<forall>r\<in>set (objects c). ?h1 r = heap st r" using fresh by auto
  have S1: "safeRectOf ?c1 = ?S" using safeRectOf_cong[of ?c1 c0] dims by simp
  have c1: "canvas ?st1 = Some ?c1" by simp
  have old2: "\<forall>r\<in>set (objects c). heap ?st2 r = heap st r"
  proof
    fix r assume "r \<in> set (objects c)"
    with fresh have "r \<noteq> ?f" by auto
    then show "heap ?st2 r = heap st r"
      using arrange_heap_other[of "Some ?f" r ?st1] by simp
  qed
  have u1: "getUserObjects c ?h1 = getUserObjects c (heap st)"
    by (rule getUserObjects_heap_cong[OF old1])
  have u2: "getUserObjects c (heap ?st2) = getUserObjects c (heap st)"
    by (rule getUserObjects_heap_cong[OF old2])
  have fNB: "\<not> isBleedObject (heap ?st2 ?f)" using baseNB by simp
  have U2: "getUserObjects ?c1 (heap ?st2) = getUserObjects c (heap st) @ [?f]"
    using u2 fNB by (simp add: getUserObjects_def)
  show ?thesis
  proof (cases "snd ?arr")
    case True
    have step: "cloneStep rejects (st, k, n) base = (?st2, Suc k, Suc n)"
      using False c True by (simp add: cloneStep_def cloneObject_def Let_def add case_prod_beta)
    have bl: "blockersOf ?c1 (heap ?st1) ?f = getUserObjects c (heap st)"
    proof -
      have "getUserObjects ?c1 ?h1 = getUserObjects c (heap st) @ [?f]"
        using u1 baseNB by (simp add: getUserObjects_def)
      moreover have "filter (\<lambda>obj. obj \<noteq> ?f) (getUserObjects c (heap st)) = getUserObjects c (heap st)"
        using fresh by (intro filter_True) (auto simp: getUserObjects_def)
      ultimately show ?thesis by (simp add: blockersOf_def)
    qed
    have nn1: "0 \<le> scaledWidth (heap ?st1 ?f)" "0 \<le> scaledHeight (heap ?st1 ?f)"
      using nonneg baseU by simp_all
    note cell = placed_clone_cell[OF c1 True nn1, unfolded S1 bl]
    let ?cf = "cellOf ?S (getBoundingRect (heap ?st2 ?f))"
    have img: "(\<lambda>r. cellOf ?S (getBoundingRect (heap ?st2 r))) ` set (getUserObjects c (heap st)) =
        (\<lambda>r. cellOf ?S (getBoundingRect (heap st r))) ` set (getUserObjects c (heap st))"
      using old2 by (intro image_cong) (auto simp: getUserObjects_def)
    have notin: "?cf \<notin> (\<lambda>r. cellOf ?S (getBoundingRect (heap st r))) ` set (getUserObjects c (heap st))"
    proof
      assume "?cf \<in> (\<lambda>r. cellOf ?S (getBoundingRect (heap st r))) ` set (getUserObjects c (heap st))"
      then obtain r where rr: "r \<in> set (getUserObjects c (heap st))"
        and e: "?cf = cellOf ?S (getBoundingRect (heap st r))" by auto
      from rr have "r \<in> set (objects c)" by (simp add: getUserObjects_def)
      with old1 have "heap ?st1 r = heap st r" by simp
      with cell(2) rr e show False by auto
    qed
    have occ2: "occupiedIn c0 ?st2 = insert ?cf (occupiedIn c0 st)"
      using cell(1) by (auto simp: occupiedIn_def occupied_def c U2 img)
    have "?cf \<notin> occupiedIn c0 st" using notin by (simp add: occupiedIn_def occupied_def c)
    moreover have "finite (occupiedIn c0 st)"
      using occupiedIn_subset finite_cells by (rule finite_subset)
    ultimately have card: "card (occupiedIn c0 ?st2) = Suc (card (occupiedIn c0 st))"
      by (simp add: occ2)
    have inv2: "fillInv c0 po ?st2"
      unfolding fillInv_def
    proof (intro conjI exI[of _ ?c1])
      show "isRestoring ?st2" using r by simp
      show "canvas ?st2 = Some ?c1" by simp
      show "set po \<subseteq> set (getUserObjects ?c1 (heap ?st2))" using po by (auto simp: U2)
      show "\<forall>r\<in>set (getUserObjects ?c1 (heap ?st2)).
           0 \<le> scaledWidth (heap ?st2 r) \<and> 0 \<le> scaledHeight (heap ?st2 r)"
      proof
        fix r assume "r \<in> set (getUserObjects ?c1 (heap ?st2))"
        then consider "r \<in> set (getUserObjects c (heap st))" | "r = ?f" by (auto simp: U2)
        then show "0 \<le> scaledWidth (heap ?st2 r) \<and> 0 \<le> scaledHeight (heap ?st2 r)"
        proof cases
          case 1
          then have "r \<in> set (objects c)" by (simp add: getUserObjects_def)
          with fresh have "r \<noteq> ?f" by auto
          with nonneg 1 show ?thesis by simp
        next
          case 2
          with nonneg baseU show ?thesis by simp
        qed
      qed
    qed (simp_all add: dims)
    show ?thesis
      using step inv2 card by simp
  next
    case False2: False
    let ?st3 = "?st2\<lparr> canvas := Some c \<rparr>"
    have rm: "canvas_remove ?st2 ?f = ?st3"
      using canvas_remove_restoring[of ?st2 ?c1 ?f] r fresh by (simp add: remove1_append)
    have step: "cloneStep rejects (st, k, n) base = (?st3, Suc k, n)"
      using False c False2 by (simp add: cloneStep_def cloneObject_def Let_def add rm case_prod_beta)
    have occ3: "occupiedIn c0 ?st3 = occupiedIn c0 st"
      using occupied_heap_cong[OF old2] by (simp add: occupiedIn_def c)
    have inv3: "fillInv c0 po ?st3"
      unfolding fillInv_def
    proof (intro conjI exI[of _ c])
      show "isRestoring ?st3" using r by simp
      show "set po \<subseteq> set (getUserObjects c (heap ?st3))" using po u2 by simp
      show "\<forall>r\<in>set (getUserObjects c (heap ?st3)).
           0 \<le> scaledWidth (heap ?st3 r) \<and> 0 \<le> scaledHeight (heap ?st3 r)"
      proof
        fix r assume "r \<in> set (getUserObjects c (heap ?st3))"
        then have rr: "r \<in> set (getUserObjects c (heap st))" using u2 by simp
        then have "r \<in> set (objects c)" by (simp add: getUserObjects_def)
        with old2 have "heap ?st3 r = heap st r" by simp
        with nonneg rr show "0 \<le> scaledWidth (heap ?st3 r) \<and> 0 \<le> scaledHeight (heap ?st3 r)"
          by simp
      qed
    qed (simp_all add: dims)
    show ?thesis
      using step inv3 occ3 by simp
  qed
qed

lemma foldl_cloneStep_spec:
  assumes "fillInv c0 po st" "set bases \<subseteq> set po"
  shows "\<exists>st' k' n'. foldl (cloneStep rejects) (st, k, n) bases = (st', k', n') \<and>
           fillInv c0 po st' \<and> n \<le> n' \<and>
           card (occupiedIn c0 st) + (n' - n) \<le> card (occupiedIn c0 st')"
  using assms
proof (induction bases arbitrary: st k n)
  case Nil
  then show ?case by simp
next
  case (Cons base bases)
  from Cons.prems have b: "base \<in> set po" and bs: "set bases \<subseteq> set po" by simp_all
  from cloneStep_spec[OF Cons.prems(1) b, of rejects k n] obtain st1 n1 where
    s1: "cloneStep rejects (st, k, n) base = (st1, Suc k, n1)" and i1: "fillInv c0 po st1"
    and n1: "n \<le> n1" and c1: "card (occupiedIn c0 st) + (n1 - n) \<le> card (occupiedIn c0 st1)"
    by blast
  from Cons.IH[OF i1 bs, of "Suc k" n1] obtain st' k' n' where
    s2: "foldl (cloneStep rejects) (st1, Suc k, n1) bases = (st', k', n')"
    and i2: "fillInv c0 po st'" and n2: "n1 \<le> n'"
    and c2: "card (occupiedIn c0 st1) + (n' - n1) \<le> card (occupiedIn c0 st')"
    by blast
  have "foldl (cloneStep rejects) (st, k, n) (base # bases) = (st', k', n')"
    by (simp add: s1 s2)
  moreover have "n \<le> n'" using n1 n2 by simp
  moreover have "card (occupiedIn c0 st) + (n' - n) \<le> card (occupiedIn c0 st')"
    using c1 c2 n1 n2 by linarith
  ultimately show ?case using i2 by blast
qed

lemma clonePass_spec:
  assumes "fillInv c0 po st"
  shows "\<exists>st' k' n'. clonePass rejects po (st, k) = (st', k', n') \<and>
           fillInv c0 po st' \<and>
           card (occupiedIn c0 st) + n' \<le> card (occupiedIn c0 st')"
  using foldl_cloneStep_spec[OF assms subset_refl, of rejects k 0]
  by (auto simp: clonePass_def)

lemma passState_shift:
  "passState rejects po (Suc n) sk = passState rejects po n (passState rejects po (Suc 0) sk)"
  by (induction n) (simp_all add: Let_def)

lemma passCount_shift:
  "passCount rejects po (Suc n) sk = passCount rejects po n (passState rejects po (Suc 0) sk)"
  using passState_shift[of rejects po n sk] by (simp add: passCount_def)

lemma cloneLoop_terminates:
  assumes "fillInv c0 po st"
  shows "\<exists>n. cloneLoop rejects po (st, k) = Some (passState rejects po (Suc n) (st, k)) \<and>
           passCount rejects po n (st, k) = 0 \<and>
           (\<forall>m<n. 0 < passCount rejects po m (st, k))"
  using assms
proof (induction "card (cells (safeRectOf c0)) - card (occupiedIn c0 st)"
    arbitrary: st k rule: less_induct)
  case less
  from clonePass_spec[OF less.prems, of rejects k] obtain st' k' n' where
    pass: "clonePass rejects po (st, k) = (st', k', n')" and inv': "fillInv c0 po st'"
    and card: "card (occupiedIn c0 st) + n' \<le> card (occupiedIn c0 st')"
    by blast
  have p1: "passState rejects po (Suc 0) (st, k) = (st', k')"
    by (simp add: pass Let_def)
  have c0: "passCount rejects po 0 (st, k) = n'"
    by (simp add: passCount_def pass)
  show ?case
  proof (cases "n' = 0")
    case True
    have "cloneLoop rejects po (st, k) = Some (st', k')"
      by (subst cloneLoop.simps) (simp add: pass True Let_def)
    then show ?thesis
      using p1 c0 True by (intro exI[of _ 0]) simp
  next
    case False
    have le: "card (occupiedIn c0 st') \<le> card (cells (safeRectOf c0))"
      by (rule card_mono[OF finite_cells occupiedIn_subset])
    from card False le have
      "card (cells (safeRectOf c0)) - card (occupiedIn c0 st') <
       card (cells (safeRectOf c0)) - card (occupiedIn c0 st)"
      by linarith
    from less.hyps[OF this inv', of k'] obtain n where
      l: "cloneLoop rejects po (st', k') = Some (passState rejects po (Suc n) (st', k'))"
      and z: "passCount rejects po n (st', k') = 0"
      and pos: "\<forall>m<n. 0 < passCount rejects po m (st', k')"
      by blast
    have "cloneLoop rejects po (st, k) = cloneLoop rejects po (st', k')"
      by (subst cloneLoop.simps) (simp add: pass False Let_def)
    then have 1: "cloneLoop rejects po (st, k) = Some (passState rejects po (Suc (Suc n)) (st, k))"
      using l by (simp only: passState_shift[of rejects po "Suc n" "(st, k)"] p1)
    have 2: "passCount rejects po (Suc n) (st, k) = 0"
      using z by (simp only: passCount_shift p1)
    have 3: "\<forall>m<Suc n. 0 < passCount rejects po m (st, k)"
    proof (intro allI impI)
      fix m assume "m < Suc n"
      show "0 < passCount rejects po m (st, k)"
      proof (cases m)
        case 0
        with c0 False show ?thesis by simp
      next
        case (Suc m')
        with \<open>m < Suc n\<close> pos have "0 < passCount rejects po m' (st', k')" by simp
        then show ?thesis unfolding Suc by (simp only: passCount_shift p1)
      qed
    qed
    from 1 2 3 show ?thesis by blast
  qed
qed

lemma arrangeOriginal_inv:
  assumes "arrangeInv st0 c0 originals st placed" "x \<in> set originals" "x \<in> set (objects c0)"
  shows "arrangeInv st0 c0 originals (fst (arrangeOriginal (st, placed, failed) x))
           (fst (snd (arrangeOriginal (st, placed, failed) x)))"
proof -
  from assms(1) obtain c where r: "isRestoring st" and c: "canvas st = Some c"
    and dims: "width c = width c0" "height c = height c0" "zoom c = zoom c0"
    and sub: "set (objects c) \<subseteq> set (objects c0)" and pl: "set placed \<subseteq> set (objects c)"
    and plo: "set placed \<subseteq> set originals"
    and shape: "\<forall>r. name (heap st r) = name (heap st0 r) \<and>
          scaledWidth (heap st r) = scaledWidth (heap st0 r) \<and>
          scaledHeight (heap st r) = scaledHeight (heap st0 r)"
    by (auto simp: arrangeInv_def)
  let ?c1 = "c\<lparr> objects := objects c @ [x] \<rparr>"
  let ?st1 = "st\<lparr> canvas := Some ?c1 \<rparr>"
  have add: "canvas_add st x = ?st1" by (rule canvas_add_restoring[OF r c])
  let ?arr = "arrangeObjectOnCanvas ?st1 (Some x)"
  have res: "arrangeOriginal (st, placed, failed) x =
     (if snd ?arr then (fst ?arr, placed @ [x], failed) else (fst ?arr, placed, failed @ [x]))"
    by (simp add: arrangeOriginal_def add case_prod_beta)
  show ?thesis
    unfolding arrangeInv_def
  proof (intro conjI exI[of _ ?c1] allI)
    show "isRestoring (fst (arrangeOriginal (st, placed, failed) x))" using r by (simp add: res)
    show "canvas (fst (arrangeOriginal (st, placed, failed) x)) = Some ?c1" by (simp add: res)
    show "set (objects ?c1) \<subseteq> set (objects c0)" using sub assms(3) by simp
    show "set (fst (snd (arrangeOriginal (st, placed, failed) x))) \<subseteq> set (objects ?c1)"
      using pl by (auto simp: res)
    show "set (fst (snd (arrangeOriginal (st, placed, failed) x))) \<subseteq> set originals"
      using plo assms(2) by (auto simp: res)
    show "name (heap (fst (arrangeOriginal (st, placed, failed) x)) r) = name (heap st0 r)" for r
      using shape by (simp add: res)
    show "scaledWidth (heap (fst (arrangeOriginal (st, placed, failed) x)) r) = scaledWidth (heap st0 r)" for r
      using shape by (simp add: res)
    show "scaledHeight (heap (fst (arrangeOriginal (st, placed, failed) x)) r) = scaledHeight (heap st0 r)" for r
      using shape by (simp add: res)
  qed (simp_all add: dims)
qed

lemma foldl_arrangeOriginal_inv:
  assumes "arrangeInv st0 c0 originals st placed" "set xs \<subseteq> set originals"
    "set xs \<subseteq> set (objects c0)"
  shows "arrangeInv st0 c0 originals (fst (foldl arrangeOriginal (st, placed, failed) xs))
           (fst (snd (foldl arrangeOriginal (st, placed, failed) xs)))"
  using assms
proof (induction xs arbitrary: st placed failed)
  case Nil
  then show ?case by simp
next
  case (Cons x xs)
  obtain st1 placed1 failed1 where s: "arrangeOriginal (st, placed, failed) x = (st1, placed1, failed1)"
    by (cases "arrangeOriginal (st, placed, failed) x") auto
  from arrangeOriginal_inv[OF Cons.prems(1), of x failed] Cons.prems(2,3) s
  have "arrangeInv st0 c0 originals st1 placed1" by simp
  from Cons.IH[OF this, of failed1] Cons.prems(2,3) s show ?case by simp
qed

lemma arrangeOriginals_fillInv:
  assumes c: "canvas st = Some c"
    and nonneg: "\<forall>r\<in>set (getUserObjects c (heap st)).
         0 \<le> scaledWidth (heap st r) \<and> 0 \<le> scaledHeight (heap st r)"
  shows "fillInv c (placedOriginalsOf st c) (fst (loopStart st c))"
proof -
  let ?orig = "getUserObjects c (heap st)"
  let ?st1 = "st\<lparr> isRestoring := True \<rparr>"
  let ?c2 = "c\<lparr> objects := foldl (\<lambda>l r. remove1 r l) (objects c) ?orig \<rparr>"
  let ?st2 = "?st1\<lparr> canvas := Some ?c2 \<rparr>"
  have rm: "foldl canvas_remove ?st1 ?orig = ?st2"
    by (rule foldl_canvas_remove_restoring) (simp_all add: c)
  have osub: "set ?orig \<subseteq> set (objects c)" by (simp add: getUserObjects_def)
  have "arrangeInv st c ?orig ?st2 []"
    using set_foldl_remove1[of "objects c" ?orig] by (simp add: arrangeInv_def)
  from foldl_arrangeOriginal_inv[OF this subset_refl osub, of "[]"]
  have inv: "arrangeInv st c ?orig (fst (loopStart st c)) (placedOriginalsOf st c)"
    by (simp add: loopStart_def placedOriginalsOf_def arrangeOriginals_def rm)
  let ?st3 = "fst (loopStart st c)" and ?po = "placedOriginalsOf st c"
  from inv obtain c3 where r3: "isRestoring ?st3" and c3: "canvas ?st3 = Some c3"
    and dims: "width c3 = width c" "height c3 = height c" "zoom c3 = zoom c"
    and sub: "set (objects c3) \<subseteq> set (objects c)" and pl: "set ?po \<subseteq> set (objects c3)"
    and plo: "set ?po \<subseteq> set ?orig"
    and shape: "\<forall>r. name (heap ?st3 r) = name (heap st r) \<and>
          scaledWidth (heap ?st3 r) = scaledWidth (heap st r) \<and>
          scaledHeight (heap ?st3 r) = scaledHeight (heap st r)"
    unfolding arrangeInv_def by blast
  have bleed: "isBleedObject (heap ?st3 r) = isBleedObject (heap st r)" for r
    using shape by (simp add: isBleedObject_def)
  show ?thesis
    unfolding fillInv_def
  proof (intro conjI exI[of _ c3])
    show "set ?po \<subseteq> set (getUserObjects c3 (heap ?st3))"
    proof
      fix r assume rp: "r \<in> set ?po"
      with plo have "\<not> isBleedObject (heap st r)" by (auto simp: getUserObjects_def)
      with rp pl show "r \<in> set (getUserObjects c3 (heap ?st3))"
        by (auto simp: getUserObjects_def bleed)
    qed
    show "\<forall>r\<in>set (getUserObjects c3 (heap ?st3)).
           0 \<le> scaledWidth (heap ?st3 r) \<and> 0 \<le> scaledHeight (heap ?st3 r)"
    proof
      fix r assume "r \<in> set (getUserObjects c3 (heap ?st3))"
      then have "r \<in> set ?orig" using sub by (auto simp: getUserObjects_def bleed)
      with nonneg shape show "0 \<le> scaledWidth (heap ?st3 r) \<and> 0 \<le> scaledHeight (heap ?st3 r)"
        by simp
    qed
  qed (simp_all add: r3 c3 dims)
qed

lemma fillSheet_unfold:
  assumes "canvas st = Some c" "getUserObjects c (heap st) \<noteq> []"
  shows "fillSheet rejects st =
     (if placedOriginalsOf st c \<noteq> []
      then map_option (\<lambda>res. Inr (fillSheetFinally (fst res)))
             (cloneLoop rejects (placedOriginalsOf st c) (loopStart st c))
      else Some (Inr (fillSheetFinally (fst (loopStart st c)))))"
  using assms by (simp add: fillSheet_def Let_def placedOriginalsOf_def loopStart_def)

text \<open>
  Claim C3. On a canvas whose user objects have no negative footprint, \<open>fillSheet\<close>
  returns, whatever calls of \<open>clone()\<close> reject. When the cloning loop is entered it runs
  \<open>n + 1\<close> passes for some \<open>n\<close>: every pass before the last places at least one clone,
  the last pass places none, and the result of \<open>fillSheet\<close> is the state after that pass
  (with the \<open>finally\<close> block applied). Each placed clone takes a cell of the safe area
  that no other user object has, which bounds the number of clones.
\<close>

theorem fillSheet_terminates:
  assumes "canvas st = Some c"
    and "\<forall>r\<in>set (getUserObjects c (heap st)).
           0 \<le> scaledWidth (heap st r) \<and> 0 \<le> scaledHeight (heap st r)"
  shows "(\<exists>st'. fillSheet rejects st = Some (Inr st')) \<and>
    (getUserObjects c (heap st) \<noteq> [] \<and> placedOriginalsOf st c \<noteq> [] \<longrightarrow>
       (\<exists>n. cloneLoop rejects (placedOriginalsOf st c) (loopStart st c) =
               Some (passState rejects (placedOriginalsOf st c) (Suc n) (loopStart st c)) \<and>
            passCount rejects (placedOriginalsOf st c) n (loopStart st c) = 0 \<and>
            (\<forall>m<n. 0 < passCount rejects (placedOriginalsOf st c) m (loopStart st c)) \<and>
            fillSheet rejects st =
              Some (Inr (fillSheetFinally
                (fst (passState rejects (placedOriginalsOf st c) (Suc n) (loopStart st c)))))))"
proof -
  let ?po = "placedOriginalsOf st c" and ?sk = "loopStart st c"
  have sk: "?sk = (fst ?sk, 0)" by (simp add: loopStart_def)
  have loop: "\<exists>n. cloneLoop rejects ?po ?sk = Some (passState rejects ?po (Suc n) ?sk) \<and>
            passCount rejects ?po n ?sk = 0 \<and>
            (\<forall>m<n. 0 < passCount rejects ?po m ?sk)"
    using cloneLoop_terminates[OF arrangeOriginals_fillInv[OF assms], of rejects 0] sk by simp
  show ?thesis
  proof (cases "getUserObjects c (heap st) = []")
    case True
    then show ?thesis using assms(1) by (simp add: fillSheet_def)
  next
    case False
    note unf = fillSheet_unfold[OF assms(1) False, of rejects]
    show ?thesis
    proof (cases "?po = []")
      case True
      then show ?thesis by (simp add: unf)
    next
      case po: False
      from loop obtain n where
        l: "cloneLoop rejects ?po ?sk = Some (passState rejects ?po (Suc n) ?sk)"
        and z: "passCount rejects ?po n ?sk = 0"
        and p: "\<forall>m<n. 0 < passCount rejects ?po m ?sk"
        by blast
      have f: "fillSheet rejects st =
          Some (Inr (fillSheetFinally (fst (passState rejects ?po (Suc n) ?sk))))"
        using po by (simp only: unf l if_True option.map not_False_eq_True simp_thms)
      from l z p f show ?thesis by blast
    qed
  qed
qed

lemmas eval_defs = safeRectOf_def BLEED_PIXELS_eq PLACEMENT_PADDING_def PLACEMENT_GUTTER_def
  virtualWidth_def virtualHeight_def zoomOf_def safeInvalid_def getUserObjects_def
  isBleedObject_def getBoundingRect_eval canvas_remove_def canvas_add_def saveState_def
  bringBleedObjectsToFront_def arrangeObjectOnCanvas_def blockersOf_def computeFreeSpace_def
  pruneContainedRects_def sortRects_def fits_def setCentre_def subtractBlocker_def blockerOf_def
  clampRect_def subtractRect_def intersection_def remainders_def notSliver_def containsRect_def
  enumerate_eq_zip Let_def

lemma ex_arranged:
  "arrangeOriginals (exampleFill\<lparr> isRestoring := True \<rparr>) [1] =
     (exampleFill\<lparr> isRestoring := True,
        heap := (heap exampleFill)
          (1 := \<lparr> name = ''big'', obj_left = 679, obj_top = 429, originX = XCenter,
                 originY = YCenter, scaledWidth = 1200, scaledHeight = 700, angle = 0 \<rparr>) \<rparr>, [1], [])"
  by (simp add: arrangeOriginals_def arrangeOriginal_def exampleFill_def exampleFillCanvas_def eval_defs)

lemma ex_users: "getUserObjects exampleFillCanvas (heap exampleFill) = [1]"
  by (simp add: exampleFill_def exampleFillCanvas_def getUserObjects_def isBleedObject_def)

lemma ex_pass1:
  "clonePass neverRejects [1] (exampleFill\<lparr> isRestoring := True,
        heap := (heap exampleFill)
          (1 := \<lparr> name = ''big'', obj_left = 679, obj_top = 429, originX = XCenter,
                 originY = YCenter, scaledWidth = 1200, scaledHeight = 700, angle = 0 \<rparr>) \<rparr>, 0) =
   (exampleFill\<lparr> isRestoring := True,
        canvas := Some (exampleFillCanvas\<lparr> objects := [1, Suc (Suc 0)] \<rparr>),
        heap := (heap exampleFill)
          (1 := \<lparr> name = ''big'', obj_left = 679, obj_top = 429, originX = XCenter,
                 originY = YCenter, scaledWidth = 1200, scaledHeight = 700, angle = 0 \<rparr>,
           Suc (Suc 0) := \<lparr> name = ''big'', obj_left = 679, obj_top = 1141, originX = XCenter,
                 originY = YCenter, scaledWidth = 1200, scaledHeight = 700, angle = 0 \<rparr>) \<rparr>, 1, 1)"
  by (simp add: clonePass_def cloneStep_def cloneObject_def neverRejects_def newRef_def exampleFill_def exampleFillCanvas_def eval_defs)

lemma ex_free2:
  "computeFreeSpace \<lparr>rect_left = 79, rect_top = 79, rect_right = 2401, rect_bottom = 1669\<rparr>
     [\<lparr>bounds_left = 79, bounds_top = 79, bounds_width = 1200, bounds_height = 700\<rparr>,
      \<lparr>bounds_left = 79, bounds_top = 791, bounds_width = 1200, bounds_height = 700\<rparr>] =
   [\<lparr>rect_left = 79, rect_top = 1503, rect_right = 2401, rect_bottom = 1669\<rparr>,
    \<lparr>rect_left = 1291, rect_top = 791, rect_right = 2401, rect_bottom = 1503\<rparr>,
    \<lparr>rect_left = 1291, rect_top = 79, rect_right = 2401, rect_bottom = 791\<rparr>]"
  by (simp add: eval_defs)

lemma ex_pass1':
  "clonePass neverRejects [1] (fst (arrangeOriginals (exampleFill\<lparr> isRestoring := True \<rparr>) [1]), 0) =
     (exampleFilled, 1, 1)"
  unfolding ex_arranged fst_conv ex_pass1 exampleFilled_def
  by (simp add: numeral_2_eq_2)

lemma ex_pass2:
  "clonePass neverRejects [1] (exampleFilled, 1) =
     (exampleFilled\<lparr> heap := (heap exampleFilled)
        (3 := \<lparr> name = ''big'', obj_left = 1240, obj_top = 874, originX = XCenter,
                originY = YCenter, scaledWidth = 1200, scaledHeight = 700, angle = 0 \<rparr>) \<rparr>, 2, 0)"
proof -
  define c3 where "c3 = exampleFillCanvas\<lparr> objects := [1, 2, 3] \<rparr>"
  define st1 where "st1 = exampleFilled\<lparr> heap := (heap exampleFilled)(3 := heap exampleFilled (Suc 0)),
      canvas := Some c3 \<rparr>"
  have r: "isRestoring exampleFilled" and cv: "canvas exampleFilled = Some (exampleFillCanvas\<lparr> objects := [1, 2] \<rparr>)"
    by (simp_all add: exampleFilled_def)
  have nr: "newRef [Suc 0, 2] = 3" by (simp add: newRef_def)
  have add: "canvas_add (exampleFilled\<lparr> heap := (heap exampleFilled)(3 := heap exampleFilled (Suc 0)) \<rparr>) 3 = st1"
    using canvas_add_restoring[of "exampleFilled\<lparr> heap := (heap exampleFilled)(3 := heap exampleFilled (Suc 0)) \<rparr>"
        "exampleFillCanvas\<lparr> objects := [1, 2] \<rparr>" 3] r cv
    by (simp add: st1_def c3_def)
  have c1: "canvas st1 = Some c3" by (simp add: st1_def)
  have S: "safeRectOf c3 = \<lparr>rect_left = 79, rect_top = 79, rect_right = 2401, rect_bottom = 1669\<rparr>"
    by (simp add: c3_def exampleFillCanvas_def safeRectOf_def BLEED_PIXELS_eq PLACEMENT_PADDING_def
        virtualWidth_def virtualHeight_def zoomOf_def)
  have valid: "\<not> safeInvalid (safeRectOf c3)" by (simp add: S safeInvalid_def)
  have bs: "map (\<lambda>b. getBoundingRect (heap st1 b)) (blockersOf c3 (heap st1) 3) =
     [\<lparr>bounds_left = 79, bounds_top = 79, bounds_width = 1200, bounds_height = 700\<rparr>,
      \<lparr>bounds_left = 79, bounds_top = 791, bounds_width = 1200, bounds_height = 700\<rparr>]"
    by (simp add: st1_def c3_def exampleFilled_def exampleFill_def exampleFillCanvas_def blockersOf_def
        getUserObjects_def isBleedObject_def getBoundingRect_eval)
  have wh: "scaledWidth (heap st1 3) = 1200" "scaledHeight (heap st1 3) = 700"
    by (simp_all add: st1_def exampleFilled_def exampleFill_def)
  have none: "find (fits (scaledWidth (heap st1 3)) (scaledHeight (heap st1 3)))
       (sortRects (computeFreeSpace (safeRectOf c3)
          (map (\<lambda>b. getBoundingRect (heap st1 b)) (blockersOf c3 (heap st1) 3)))) = None"
    unfolding bs S ex_free2 wh by (simp add: sortRects_def fits_def)
  have arr: "arrangeObjectOnCanvas st1 (Some 3) =
     (st1\<lparr> heap := (heap st1)(3 := setCentre (heap st1 3) 1240 874) \<rparr>, False)"
    using arrange_not_found[OF c1 valid none] by (simp add: S)
  have rm: "canvas_remove (st1\<lparr> heap := (heap st1)(3 := setCentre (heap st1 3) 1240 874) \<rparr>) 3 =
      exampleFilled\<lparr> heap := (heap exampleFilled)
        (3 := \<lparr> name = ''big'', obj_left = 1240, obj_top = 874, originX = XCenter,
                originY = YCenter, scaledWidth = 1200, scaledHeight = 700, angle = 0 \<rparr>) \<rparr>"
    using canvas_remove_restoring[of "st1\<lparr> heap := (heap st1)(3 := setCentre (heap st1 3) 1240 874) \<rparr>" c3 3]
    by (simp add: st1_def c3_def exampleFilled_def exampleFill_def exampleFillCanvas_def setCentre_def)
  show ?thesis
    by (simp add: clonePass_def cloneStep_def cloneObject_def neverRejects_def cv nr Let_def add arr rm)
qed

lemma ex_placed: "placedOriginalsOf exampleFill exampleFillCanvas = [1]"
  unfolding placedOriginalsOf_def ex_users ex_arranged by simp

lemma ex_count0: "passCount neverRejects [1] 0 (loopStart exampleFill exampleFillCanvas) = 1"
  unfolding passCount_def passState.simps loopStart_def ex_users ex_pass1' by simp

lemma ex_state1: "passState neverRejects [1] (Suc 0) (loopStart exampleFill exampleFillCanvas) = (exampleFilled, 1)"
  unfolding passState.simps loopStart_def ex_users ex_pass1' Let_def by simp

lemma ex_count1: "passCount neverRejects [1] (Suc 0) (loopStart exampleFill exampleFillCanvas) = 0"
  unfolding passCount_def ex_state1 ex_pass2 by simp

lemma ex_state2:
  "passState neverRejects [1] (Suc (Suc 0)) (loopStart exampleFill exampleFillCanvas) =
     (exampleFilled\<lparr> heap := (heap exampleFilled)
        (3 := \<lparr> name = ''big'', obj_left = 1240, obj_top = 874, originX = XCenter,
                originY = YCenter, scaledWidth = 1200, scaledHeight = 700, angle = 0 \<rparr>) \<rparr>, 2)"
  unfolding passState.simps(2)[of _ _ "Suc 0"] ex_state1 ex_pass2 by simp

theorem fillSheet_terminates_witness:
  "canvas exampleFill = Some exampleFillCanvas \<and>
   getUserObjects exampleFillCanvas (heap exampleFill) = [1] \<and>
   0 \<le> scaledWidth (heap exampleFill 1) \<and> 0 \<le> scaledHeight (heap exampleFill 1) \<and>
   placedOriginalsOf exampleFill exampleFillCanvas = [1] \<and>
   passCount neverRejects [1] 0 (loopStart exampleFill exampleFillCanvas) = 1 \<and>
   passCount neverRejects [1] 1 (loopStart exampleFill exampleFillCanvas) = 0 \<and>
   fillSheet neverRejects exampleFill =
     Some (Inr (exampleFilled\<lparr> heap := (heap exampleFilled)
        (3 := \<lparr> name = ''big'', obj_left = 1240, obj_top = 874, originX = XCenter,
                originY = YCenter, scaledWidth = 1200, scaledHeight = 700, angle = 0 \<rparr>),
        isRestoring := False, saveStateTimeout := True \<rparr>))"
proof -
  let ?sk = "loopStart exampleFill exampleFillCanvas"
  have c: "canvas exampleFill = Some exampleFillCanvas" by (simp add: exampleFill_def)
  have nn: "0 \<le> scaledWidth (heap exampleFill 1)" "0 \<le> scaledHeight (heap exampleFill 1)"
    by (simp_all add: exampleFill_def)
  have h: "\<forall>r\<in>set (getUserObjects exampleFillCanvas (heap exampleFill)).
           0 \<le> scaledWidth (heap exampleFill r) \<and> 0 \<le> scaledHeight (heap exampleFill r)"
    using nn by (simp add: ex_users)
  from fillSheet_terminates[OF c h, of neverRejects] obtain n where
    z: "passCount neverRejects [1] n ?sk = 0"
    and p: "\<forall>m<n. 0 < passCount neverRejects [1] m ?sk"
    and f: "fillSheet neverRejects exampleFill =
              Some (Inr (fillSheetFinally (fst (passState neverRejects [1] (Suc n) ?sk))))"
    by (auto simp: ex_users ex_placed)
  have "n \<noteq> 0"
  proof
    assume "n = 0"
    with z ex_count0 show False by simp
  qed
  moreover have "\<not> 1 < n"
  proof
    assume "1 < n"
    with p have "0 < passCount neverRejects [1] (Suc 0) ?sk" by simp
    with ex_count1 show False by simp
  qed
  ultimately have n: "n = Suc 0" by simp
  have fin: "fillSheetFinally (exampleFilled\<lparr> heap := (heap exampleFilled)
        (3 := \<lparr> name = ''big'', obj_left = 1240, obj_top = 874, originX = XCenter,
                originY = YCenter, scaledWidth = 1200, scaledHeight = 700, angle = 0 \<rparr>) \<rparr>) =
     exampleFilled\<lparr> heap := (heap exampleFilled)
        (3 := \<lparr> name = ''big'', obj_left = 1240, obj_top = 874, originX = XCenter,
                originY = YCenter, scaledWidth = 1200, scaledHeight = 700, angle = 0 \<rparr>),
        isRestoring := False, saveStateTimeout := True \<rparr>"
    by (simp add: fillSheetFinally_def bringBleedObjectsToFront_def saveState_def exampleFilled_def)
  have "fillSheet neverRejects exampleFill =
     Some (Inr (exampleFilled\<lparr> heap := (heap exampleFilled)
        (3 := \<lparr> name = ''big'', obj_left = 1240, obj_top = 874, originX = XCenter,
                originY = YCenter, scaledWidth = 1200, scaledHeight = 700, angle = 0 \<rparr>),
        isRestoring := False, saveStateTimeout := True \<rparr>))"
    unfolding f n ex_state2 fst_conv fin ..
  with c nn ex_users ex_placed ex_count0 ex_count1 show ?thesis by simp
qed

end
